theory Spec2Isabelle
  imports Main "HOL-Library.Word"
begin

unbundle bit_operations_syntax

section \<open>Attribute sets (set.h, set.c)\<close>

text \<open>
  \<^verbatim>\<open>typedef struct { uint32_t set; uint8_t size; uint8_t cursor; uint8_t count; } Set;\<close>
  The fields carry the prefix \<open>s_\<close> because \<open>set\<close> and \<open>size\<close> are constants of HOL.
\<close>

record Set =
  s_set :: "32 word"
  s_size :: "8 word"
  s_cursor :: "8 word"
  s_count :: "8 word"

text \<open>\<^verbatim>\<open>#define MAX_ATTRIBS 26u\<close>, \<^verbatim>\<open>#define INVALID_ATTRIB (MAX_ATTRIBS)\<close>,
  \<^verbatim>\<open>#define USED_MASK 0x03FFFFFFu\<close>.\<close>

definition MAX_ATTRIBS :: nat where
  "MAX_ATTRIBS = 26"

definition INVALID_ATTRIB :: "8 word" where
  "INVALID_ATTRIB = of_nat MAX_ATTRIBS"

definition USED_MASK :: "32 word" where
  "USED_MASK = 0x03FFFFFF"

text \<open>
  A failed \<^verbatim>\<open>assert\<close> aborts the program; each assertion of set.c and queue.c is one
  error value, and a function that can hit one returns \<open>error + result\<close>.  Built with
  \<^verbatim>\<open>-DNDEBUG\<close> the assertions are compiled out; wherever a function is shown below to return
  \<open>Inr\<close>, no assertion is hit and both builds compute the same.
\<close>

datatype error =
    Invalid_attribute
  | Not_contained
  | While_iterating
  | Too_many_attributes
  | Empty_queue

text \<open>\<^verbatim>\<open>__builtin_popcount\<close>: the number of 1-bits of a 32-bit value.\<close>

definition popcount :: "32 word \<Rightarrow> nat" where
  "popcount w = length (filter (bit w) [0..<32])"

definition Set_union :: "Set \<Rightarrow> Set \<Rightarrow> Set" where
  "Set_union s t =
     (let u = s_set s OR s_set t
      in \<lparr>s_set = u, s_size = of_nat (popcount u), s_cursor = 0, s_count = 0\<rparr>)"

definition Set_intersection :: "Set \<Rightarrow> Set \<Rightarrow> Set" where
  "Set_intersection s t =
     (let i = s_set s AND s_set t
      in \<lparr>s_set = i, s_size = of_nat (popcount i), s_cursor = 0, s_count = 0\<rparr>)"

definition Set_difference :: "Set \<Rightarrow> Set \<Rightarrow> Set" where
  "Set_difference s t =
     (let d = s_set s AND NOT (s_set t)
      in \<lparr>s_set = d, s_size = of_nat (popcount d), s_cursor = 0, s_count = 0\<rparr>)"

definition Set_contains :: "Set \<Rightarrow> Set \<Rightarrow> bool" where
  "Set_contains s t \<longleftrightarrow> s_set s AND s_set t = s_set t"

definition Set_init :: "Set" where
  "Set_init = \<lparr>s_set = 0, s_size = 0, s_cursor = 0, s_count = 0\<rparr>"

definition Set_copy :: "Set \<Rightarrow> Set" where
  "Set_copy other = \<lparr>s_set = s_set other, s_size = s_size other, s_cursor = 0, s_count = 0\<rparr>"

definition Set_full :: "8 word \<Rightarrow> error + Set" where
  "Set_full n_attribs =
     (if unat n_attribs \<le> MAX_ATTRIBS
      then Inr \<lparr>s_set = push_bit (unat n_attribs) 1 - 1, s_size = n_attribs,
                s_cursor = 0, s_count = 0\<rparr>
      else Inl Too_many_attributes)"

definition Set_is_full :: "Set \<Rightarrow> 8 word \<Rightarrow> error + bool" where
  "Set_is_full s n_attribs =
     (if unat n_attribs \<le> MAX_ATTRIBS then Inr (s_size s = n_attribs)
      else Inl Too_many_attributes)"

definition Set_insert :: "Set \<Rightarrow> 8 word \<Rightarrow> error + Set" where
  "Set_insert s i =
     (if \<not> unat i < MAX_ATTRIBS then Inl Invalid_attribute
      else if s_cursor s \<noteq> 0 then Inl While_iterating
      else if s_set s AND push_bit (unat i) 1 \<noteq> 0 then Inr s
      else Inr (s\<lparr>s_set := s_set s OR push_bit (unat i) 1, s_size := s_size s + 1\<rparr>))"

definition Set_remove :: "Set \<Rightarrow> 8 word \<Rightarrow> error + Set" where
  "Set_remove s i =
     (if \<not> unat i < MAX_ATTRIBS then Inl Invalid_attribute
      else if s_set s AND push_bit (unat i) 1 = 0 then Inl Not_contained
      else if s_cursor s \<noteq> 0 then Inl While_iterating
      else Inr (s\<lparr>s_set := s_set s XOR push_bit (unat i) 1, s_size := s_size s - 1\<rparr>))"

definition Set_clear :: "Set" where
  "Set_clear = \<lparr>s_set = 0, s_size = 0, s_cursor = 0, s_count = 0\<rparr>"

lemma unat_succ_lt26: "unat (i :: 8 word) < 26 \<Longrightarrow> unat (i + 1) = unat i + 1"
  by (simp add: unat_word_ariths)

function next_pos_scan :: "Set \<Rightarrow> 8 word \<Rightarrow> 8 word \<times> Set" where
  "next_pos_scan s i =
     (if unat i < MAX_ATTRIBS then
        (if s_set s AND push_bit (unat i) 1 \<noteq> 0 then
           (let s1 = s\<lparr>s_cursor := i + 1, s_count := s_count s + 1\<rparr>
            in if s_count s1 = s_size s1
               then (i, s1\<lparr>s_cursor := 0, s_count := 0\<rparr>)
               else (i, s1))
         else next_pos_scan s (i + 1))
      else (INVALID_ATTRIB, s))"
  by pat_completeness auto
termination
  by (relation "measure (\<lambda>(s, i). MAX_ATTRIBS - unat i)")
     (auto simp: MAX_ATTRIBS_def unat_succ_lt26)

declare next_pos_scan.simps [simp del]

definition Set_next_pos :: "Set \<Rightarrow> 8 word \<times> Set" where
  "Set_next_pos s = next_pos_scan s (s_cursor s)"

text \<open>
  \<^verbatim>\<open>Set_print\<close>: \<^verbatim>\<open>for (i = 0; i < s->size; ++i) { pos = Set_next_pos(s); printf(...); }\<close>.
  The printed line is modelled by the list of positions printed; the set is handed back because
  \<^verbatim>\<open>Set_next_pos\<close> moves its cursor.
\<close>

lemma next_pos_scan_frame:
  "next_pos_scan s i = (p, s') \<Longrightarrow> s_set s' = s_set s \<and> s_size s' = s_size s"
proof (induction s i rule: next_pos_scan.induct)
  case (1 s i)
  show ?case
  proof (cases "unat i < MAX_ATTRIBS")
    case False
    with "1.prems" show ?thesis by (simp add: next_pos_scan.simps[of s i])
  next
    case True
    show ?thesis
    proof (cases "s_set s AND push_bit (unat i) 1 \<noteq> 0")
      case True
      with \<open>unat i < MAX_ATTRIBS\<close> "1.prems" show ?thesis
        by (auto simp: next_pos_scan.simps[of s i] Let_def split: if_splits)
    next
      case False
      with \<open>unat i < MAX_ATTRIBS\<close> "1.prems" have "next_pos_scan s (i + 1) = (p, s')"
        by (simp add: next_pos_scan.simps[of s i])
      with "1.IH" \<open>unat i < MAX_ATTRIBS\<close> False show ?thesis by simp
    qed
  qed
qed

lemma Set_next_pos_frame:
  "Set_next_pos s = (p, s') \<Longrightarrow> s_set s' = s_set s \<and> s_size s' = s_size s"
  unfolding Set_next_pos_def by (rule next_pos_scan_frame)

lemma unat_lt256: "unat (x :: 8 word) < 256"
  using unsigned_less[of x, where 'a = nat] by simp

lemma unat_succ_below: "(i :: 8 word) < m \<Longrightarrow> unat (i + 1) = unat i + 1"
  using unat_lt256[of m] by (simp add: unat_word_ariths word_less_nat_alt)

function print_loop :: "8 word \<Rightarrow> Set \<Rightarrow> 8 word list \<Rightarrow> 8 word list \<times> Set" where
  "print_loop i s out =
     (if i < s_size s then
        (case Set_next_pos s of (pos, s') \<Rightarrow> print_loop (i + 1) s' (out @ [pos]))
      else (out, s))"
  by pat_completeness auto
termination
proof (relation "measure (\<lambda>(i, s, out). unat (s_size s) - unat i)", goal_cases)
  case 1
  show ?case by simp
next
  case (2 i s out pos s')
  have "s_size s' = s_size s" using Set_next_pos_frame[of s pos s'] 2 by simp
  moreover have "unat (i + 1) = unat i + 1" using 2(1) by (rule unat_succ_below)
  moreover have "unat i < unat (s_size s)" using 2(1) by (simp add: word_less_nat_alt)
  ultimately show ?case by simp
qed

declare print_loop.simps [simp del]

definition Set_print :: "Set \<Rightarrow> 8 word list \<times> Set" where
  "Set_print s = print_loop 0 s []"

section \<open>Notions used to state the properties of attribute sets\<close>

text \<open>The attributes a set holds, as a set of bit positions.\<close>

definition attrs :: "Set \<Rightarrow> nat set" where
  "attrs s = {i. bit (s_set s) i}"

text \<open>
  The header-only revision of set.h defines the difference with a mask:
  \<^verbatim>\<open>uint32_t d = s->set & ((~t->set) & USED_MASK);\<close>
\<close>

definition Set_difference_hdr :: "Set \<Rightarrow> Set \<Rightarrow> Set" where
  "Set_difference_hdr s t =
     (let d = s_set s AND (NOT (s_set t) AND USED_MASK)
      in \<lparr>s_set = d, s_size = of_nat (popcount d), s_cursor = 0, s_count = 0\<rparr>)"

text \<open>The size field is the number of members.\<close>

definition size_ok :: "Set \<Rightarrow> bool" where
  "size_ok s \<longleftrightarrow> unat (s_size s) = popcount (s_set s)"

text \<open>No member at position \<open>n\<close> or above.\<close>

definition in_range :: "nat \<Rightarrow> Set \<Rightarrow> bool" where
  "in_range n s \<longleftrightarrow> drop_bit n (s_set s) = 0"

text \<open>The members below \<^verbatim>\<open>MAX_ATTRIBS\<close> in ascending order.\<close>

definition members :: "Set \<Rightarrow> nat list" where
  "members s = filter (bit (s_set s)) [0..<MAX_ATTRIBS]"

text \<open>\<open>k\<close> successive calls of \<^verbatim>\<open>Set_next_pos\<close>: the values returned and the set afterwards.\<close>

fun next_pos_calls :: "nat \<Rightarrow> Set \<Rightarrow> 8 word list \<times> Set" where
  "next_pos_calls 0 s = ([], s)"
| "next_pos_calls (Suc k) s =
     (case Set_next_pos s of (p, s1) \<Rightarrow>
        (case next_pos_calls k s1 of (ps, s2) \<Rightarrow> (p # ps, s2)))"

text \<open>What \<^verbatim>\<open>Set_next_pos\<close> does to the set when it finds the member \<open>q\<close>.\<close>

definition hit :: "Set \<Rightarrow> 8 word \<Rightarrow> Set" where
  "hit s q =
     (let s1 = s\<lparr>s_cursor := q + 1, s_count := s_count s + 1\<rparr>
      in if s_count s1 = s_size s1 then s1\<lparr>s_cursor := 0, s_count := 0\<rparr> else s1)"

section \<open>Facts about attribute sets\<close>

lemma bit_test_iff: "(w AND 2 ^ n \<noteq> 0) \<longleftrightarrow> bit (w :: 32 word) n"
proof
  assume "w AND 2 ^ n \<noteq> 0"
  then obtain k where "bit (w AND 2 ^ n) k"
    by (auto simp: bit_eq_iff)
  then show "bit w n"
    by (auto simp: bit_and_iff bit_exp_iff)
next
  assume b: "bit w n"
  then have "bit (w AND 2 ^ n) n"
    by (auto simp: bit_and_iff bit_exp_iff dest: bit_imp_le_length)
  then show "w AND 2 ^ n \<noteq> 0"
    by auto
qed

lemma bit_test_iff0: "(w AND 2 ^ n = 0) \<longleftrightarrow> \<not> bit (w :: 32 word) n"
  using bit_test_iff[of w n] by blast

lemma popcount_card: "popcount w = card {i. bit w i}"
proof -
  have "{i. bit w i} = set (filter (bit w) [0..<32])"
    by (auto dest: bit_imp_le_length)
  then have "card {i. bit w i} = card (set (filter (bit w) [0..<32]))" by simp
  also have "\<dots> = length (filter (bit w) [0..<32])"
    by (rule distinct_card) simp
  finally show ?thesis by (simp add: popcount_def)
qed

lemma finite_bits: "finite {i. bit (w :: 32 word) i}"
  by simp

lemma popcount_le: "popcount w \<le> 32"
  unfolding popcount_def by (rule order_trans[OF length_filter_le]) simp

lemma unat_popcount: "unat (of_nat (popcount w) :: 8 word) = popcount w"
  using popcount_le[of w] by (simp add: unat_of_nat)

lemma contains_iff: "Set_contains s t \<longleftrightarrow> attrs t \<subseteq> attrs s"
proof
  assume "Set_contains s t"
  then have e: "s_set s AND s_set t = s_set t" by (simp add: Set_contains_def)
  show "attrs t \<subseteq> attrs s"
  proof
    fix i assume "i \<in> attrs t"
    then have "bit (s_set s AND s_set t) i" by (simp add: attrs_def e)
    then show "i \<in> attrs s" by (simp add: attrs_def bit_and_iff)
  qed
next
  assume "attrs t \<subseteq> attrs s"
  then have "\<And>i. bit (s_set t) i \<Longrightarrow> bit (s_set s) i" by (auto simp: attrs_def)
  then have "s_set s AND s_set t = s_set t"
    by (intro bit_eqI) (auto simp: bit_and_iff)
  then show "Set_contains s t" by (simp add: Set_contains_def)
qed

lemma attrs_union: "attrs (Set_union s t) = attrs s \<union> attrs t"
  by (auto simp: Set_union_def attrs_def bit_or_iff Let_def)

lemma attrs_difference: "attrs (Set_difference s t) = attrs s - attrs t"
  by (auto simp: Set_difference_def attrs_def bit_and_iff bit_not_iff Let_def dest: bit_imp_le_length)

lemma drop_bit_zero_iff: "drop_bit n (w :: 32 word) = 0 \<longleftrightarrow> (\<forall>i. bit w i \<longrightarrow> i < n)"
proof
  assume z: "drop_bit n w = 0"
  show "\<forall>i. bit w i \<longrightarrow> i < n"
  proof (intro allI impI)
    fix i assume b: "bit w i"
    show "i < n"
    proof (rule ccontr)
      assume "\<not> i < n"
      then have "bit (drop_bit n w) (i - n)" using b by (simp add: bit_drop_bit_eq)
      then show False by (simp add: z)
    qed
  qed
next
  assume a: "\<forall>i. bit w i \<longrightarrow> i < n"
  show "drop_bit n w = 0"
  proof (rule bit_eqI)
    fix k
    have "\<not> bit w (n + k)" using a by fastforce
    then show "bit (drop_bit n w) k = bit (0 :: 32 word) k" by (simp add: bit_drop_bit_eq)
  qed
qed

lemma in_range_iff: "in_range n s \<longleftrightarrow> attrs s \<subseteq> {..<n}"
  by (auto simp: in_range_def attrs_def drop_bit_zero_iff)

lemma attrs_finite: "finite (attrs s)"
  by (simp add: attrs_def)

lemma popcount_attrs: "popcount (s_set s) = card (attrs s)"
  by (simp add: popcount_card attrs_def)

lemma USED_MASK_mask: "USED_MASK = mask 26"
  by (simp add: USED_MASK_def mask_eq_exp_minus_1)

lemma not_used_iff: "w AND NOT USED_MASK = 0 \<longleftrightarrow> (\<forall>i. bit (w :: 32 word) i \<longrightarrow> i < 26)"
proof
  assume z: "w AND NOT USED_MASK = 0"
  show "\<forall>i. bit w i \<longrightarrow> i < 26"
  proof (intro allI impI)
    fix i assume b: "bit w i"
    show "i < 26"
    proof (rule ccontr)
      assume "\<not> i < 26"
      then have "bit (w AND NOT USED_MASK) i"
        using b by (auto simp: USED_MASK_mask bit_and_iff bit_not_iff bit_mask_iff dest: bit_imp_le_length)
      then show False by (simp add: z)
    qed
  qed
next
  assume a: "\<forall>i. bit w i \<longrightarrow> i < 26"
  show "w AND NOT USED_MASK = 0"
  proof (rule bit_eqI)
    fix k
    show "bit (w AND NOT USED_MASK) k = bit (0 :: 32 word) k"
      using a by (auto simp: USED_MASK_mask bit_and_iff bit_not_iff bit_mask_iff)
  qed
qed

lemma popcount_set_bit:
  assumes "\<not> bit w i" "i < 32"
  shows "popcount (w OR 2 ^ i) = popcount w + 1"
proof -
  have "{k. bit (w OR 2 ^ i) k} = insert i {k. bit w k}"
    using assms by (auto simp: bit_or_iff bit_exp_iff)
  then show ?thesis using assms by (simp add: popcount_card)
qed

lemma popcount_clear_bit:
  assumes "bit w i"
  shows "popcount (w XOR 2 ^ i) = popcount w - 1"
proof -
  have "{k. bit (w XOR 2 ^ i) k} = {k. bit w k} - {i}"
    using assms by (auto simp: bit_xor_iff bit_exp_iff dest: bit_imp_le_length)
  then show ?thesis using assms by (simp add: popcount_card)
qed

lemma popcount_pos: "bit w i \<Longrightarrow> 0 < popcount w"
  by (auto simp: popcount_card card_gt_0_iff)

lemma full_mask: "2 ^ n - 1 = (mask n :: 32 word)"
  by (simp add: mask_eq_exp_minus_1)

lemma mask_bits: "n \<le> 32 \<Longrightarrow> {k. bit (mask n :: 32 word) k} = {..<n}"
  by (auto simp: bit_mask_iff)

lemma popcount_mask: "n \<le> 32 \<Longrightarrow> popcount (mask n) = n"
  by (simp add: popcount_card mask_bits)

lemma size_succ: "popcount w < 32 \<Longrightarrow> unat (s :: 8 word) = popcount w \<Longrightarrow> unat (s + 1) = popcount w + 1"
  by (simp add: unat_word_ariths)

lemma size_pred: "0 < popcount w \<Longrightarrow> unat (s :: 8 word) = popcount w \<Longrightarrow> unat (s - 1) = popcount w - 1"
  by (metis One_nat_def Suc_leI unat_1 unat_sub word_le_nat_alt)

lemma popcount_lt_of_unset: "\<not> bit w i \<Longrightarrow> i < 32 \<Longrightarrow> popcount w < 32"
  using popcount_set_bit[of w i] popcount_le[of "w OR 2 ^ i"] by simp

lemma size_ok_union: "size_ok (Set_union s t)"
  by (simp add: size_ok_def Set_union_def Let_def unat_popcount)

lemma size_ok_intersection: "size_ok (Set_intersection s t)"
  by (simp add: size_ok_def Set_intersection_def Let_def unat_popcount)

lemma size_ok_difference: "size_ok (Set_difference s t)"
  by (simp add: size_ok_def Set_difference_def Let_def unat_popcount)

lemma size_ok_init: "size_ok Set_init"
  by (simp add: size_ok_def Set_init_def popcount_def)

lemma size_ok_clear: "size_ok Set_clear"
  by (simp add: size_ok_def Set_clear_def popcount_def)

lemma size_ok_copy: "size_ok other \<Longrightarrow> size_ok (Set_copy other)"
  by (simp add: size_ok_def Set_copy_def)

lemma size_ok_full: "Set_full n = Inr s \<Longrightarrow> size_ok s"
  by (auto simp: size_ok_def Set_full_def MAX_ATTRIBS_def full_mask popcount_mask split: if_splits)

lemma size_ok_insert:
  assumes "size_ok s" "Set_insert s i = Inr s'"
  shows "size_ok s'"
proof (cases "bit (s_set s) (unat i)")
  case True
  then show ?thesis using assms by (auto simp: Set_insert_def bit_test_iff bit_test_iff0 split: if_splits)
next
  case False
  from assms(2) have i: "unat i < 26"
    by (auto simp: Set_insert_def MAX_ATTRIBS_def split: if_splits)
  from assms(2) False have s': "s' = s\<lparr>s_set := s_set s OR 2 ^ unat i, s_size := s_size s + 1\<rparr>"
    by (auto simp: Set_insert_def bit_test_iff bit_test_iff0 split: if_splits)
  have "popcount (s_set s) < 32" using False i popcount_lt_of_unset[of "s_set s" "unat i"] by simp
  then show ?thesis
    using assms(1) False i unfolding s' size_ok_def
    by (simp add: popcount_set_bit size_succ)
qed

lemma size_ok_remove:
  assumes "size_ok s" "Set_remove s i = Inr s'"
  shows "size_ok s'"
proof -
  from assms(2) have b: "bit (s_set s) (unat i)"
    and s': "s' = s\<lparr>s_set := s_set s XOR 2 ^ unat i, s_size := s_size s - 1\<rparr>"
    by (auto simp: Set_remove_def bit_test_iff bit_test_iff0 split: if_splits)
  show ?thesis
    using assms(1) b popcount_pos[OF b] unfolding s' size_ok_def
    by (simp add: popcount_clear_bit size_pred)
qed

lemma size_ok_next_pos: "size_ok s \<Longrightarrow> size_ok (snd (Set_next_pos s))"
  using Set_next_pos_frame[of s "fst (Set_next_pos s)" "snd (Set_next_pos s)"]
  by (simp add: size_ok_def)

lemma full_iff:
  assumes "size_ok s" "unat n \<le> MAX_ATTRIBS" "in_range (unat n) s"
  shows "Set_is_full s n = Inr (s_set s = 2 ^ unat n - 1)"
proof -
  have n32: "unat n \<le> 32" using assms(2) by (simp add: MAX_ATTRIBS_def)
  have sub: "attrs s \<subseteq> {..<unat n}" using assms(3) by (simp add: in_range_iff)
  have "s_size s = n \<longleftrightarrow> card (attrs s) = unat n"
    using assms(1) by (auto simp: size_ok_def popcount_attrs word_unat_eq_iff)
  also have "\<dots> \<longleftrightarrow> attrs s = {..<unat n}"
    using sub by (metis card_lessThan card_subset_eq finite_lessThan)
  also have "\<dots> \<longleftrightarrow> s_set s = mask (unat n)"
  proof
    assume "attrs s = {..<unat n}"
    then have "{k. bit (s_set s) k} = {k. bit (mask (unat n) :: 32 word) k}"
      using n32 by (simp add: attrs_def mask_bits)
    then show "s_set s = mask (unat n)"
      by (intro bit_eqI) blast
  next
    assume "s_set s = mask (unat n)"
    then show "attrs s = {..<unat n}" using n32 by (simp add: attrs_def mask_bits)
  qed
  finally show ?thesis using assms(2) by (simp add: Set_is_full_def full_mask)
qed

lemma filter_upt_Cons:
  "filter P [i..<n] = p # rest \<Longrightarrow>
     i \<le> p \<and> p < n \<and> P p \<and> (\<forall>j. i \<le> j \<and> j < p \<longrightarrow> \<not> P j) \<and> filter P [Suc p..<n] = rest"
proof (induction "n - i" arbitrary: i)
  case 0
  then show ?case by simp
next
  case (Suc d)
  then have lt: "i < n" by simp
  then have u: "[i..<n] = i # [Suc i..<n]" by (simp add: upt_conv_Cons)
  show ?case
  proof (cases "P i")
    case True
    with Suc.prems u lt show ?thesis by auto
  next
    case False
    with Suc.prems u have "filter P [Suc i..<n] = p # rest" by simp
    moreover have "d = n - Suc i" using Suc.hyps(2) by simp
    ultimately have "Suc i \<le> p \<and> p < n \<and> P p \<and> (\<forall>j. Suc i \<le> j \<and> j < p \<longrightarrow> \<not> P j)
        \<and> filter P [Suc p..<n] = rest"
      using Suc.hyps(1) by blast
    with False show ?thesis
      by (metis Suc_leD Suc_leI le_neq_implies_less)
  qed
qed

lemma scan_finds:
  "unat i \<le> unat q \<Longrightarrow> unat q < 26 \<Longrightarrow> bit (s_set s) (unat q) \<Longrightarrow>
   (\<forall>j. unat i \<le> j \<and> j < unat q \<longrightarrow> \<not> bit (s_set s) j) \<Longrightarrow>
   next_pos_scan s i = (q, hit s q)"
proof (induction "unat q - unat i" arbitrary: i)
  case 0
  then have "i = q" by (simp add: word_unat_eq_iff)
  with 0 show ?case
    by (simp add: next_pos_scan.simps[of s q] MAX_ATTRIBS_def bit_test_iff hit_def Let_def)
next
  case (Suc d)
  then have lt: "unat i < unat q" by simp
  then have nb: "\<not> bit (s_set s) (unat i)" using Suc.prems by simp
  have i26: "unat i < 26" using lt Suc.prems by simp
  have u: "unat (i + 1) = unat i + 1" using i26 by (rule unat_succ_lt26)
  have "next_pos_scan s (i + 1) = (q, hit s q)"
    using Suc.hyps Suc.prems lt u by (intro Suc.hyps(1)) auto
  then show ?case
    using nb i26 by (simp add: next_pos_scan.simps[of s i] MAX_ATTRIBS_def bit_test_iff0)
qed

lemma scan_none:
  "(\<forall>j. unat i \<le> j \<and> j < 26 \<longrightarrow> \<not> bit (s_set s) j) \<Longrightarrow>
   next_pos_scan s i = (INVALID_ATTRIB, s)"
proof (induction "26 - unat i" arbitrary: i)
  case 0
  then show ?case by (simp add: next_pos_scan.simps[of s i] MAX_ATTRIBS_def)
next
  case (Suc d)
  then have i26: "unat i < 26" by simp
  have u: "unat (i + 1) = unat i + 1" using i26 by (rule unat_succ_lt26)
  have nb: "\<not> bit (s_set s) (unat i)" using Suc.prems i26 by simp
  have "next_pos_scan s (i + 1) = (INVALID_ATTRIB, s)"
    using Suc.hyps Suc.prems u by (intro Suc.hyps(1)) auto
  then show ?case
    using nb i26 by (simp add: next_pos_scan.simps[of s i] MAX_ATTRIBS_def bit_test_iff0)
qed

lemma calls_from:
  assumes "filter (bit (s_set s)) [unat (s_cursor s)..<26] = ms"
    and "unat (s_count s) + length ms = unat (s_size s)"
    and "j \<le> length ms"
  shows "fst (next_pos_calls j s) = map of_nat (take j ms) \<and>
         (j = length ms \<and> 0 < j \<longrightarrow> snd (next_pos_calls j s) = s\<lparr>s_cursor := 0, s_count := 0\<rparr>)"
  using assms
proof (induction ms arbitrary: s j)
  case Nil
  then show ?case by simp
next
  case (Cons p rest)
  show ?case
  proof (cases j)
    case 0
    then show ?thesis by simp
  next
    case (Suc j')
    from filter_upt_Cons[OF Cons.prems(1)]
    have p: "unat (s_cursor s) \<le> p" "p < 26" "bit (s_set s) p"
      "\<forall>j. unat (s_cursor s) \<le> j \<and> j < p \<longrightarrow> \<not> bit (s_set s) j"
      "filter (bit (s_set s)) [Suc p..<26] = rest"
      by auto
    define q :: "8 word" where "q = of_nat p"
    have uq: "unat q = p" using p(2) by (simp add: q_def unat_of_nat)
    have step: "Set_next_pos s = (q, hit s q)"
      unfolding Set_next_pos_def using p uq by (intro scan_finds) auto
    have cnt: "unat (s_count s + 1) = unat (s_count s) + 1"
      using Cons.prems(2) unat_lt256[of "s_size s"] by (simp add: unat_word_ariths)
    have "s_count s + 1 = s_size s \<longleftrightarrow> unat (s_count s) + 1 = unat (s_size s)"
      using cnt by (simp add: word_unat_eq_iff)
    also have "\<dots> \<longleftrightarrow> length rest = 0"
    proof -
      have "unat (s_count s) + Suc (length rest) = unat (s_size s)"
        using Cons.prems(2) by simp
      then show ?thesis by arith
    qed
    finally have full: "s_count s + 1 = s_size s \<longleftrightarrow> rest = []"
      by simp
    show ?thesis
    proof (cases "rest = []")
      case True
      then have "j' = 0" using Cons.prems(3) Suc by simp
      moreover have "hit s q = s\<lparr>s_cursor := 0, s_count := 0\<rparr>"
        using full True by (simp add: hit_def Let_def)
      ultimately show ?thesis using Suc step True uq q_def by simp
    next
      case False
      define s1 where "s1 = s\<lparr>s_cursor := q + 1, s_count := s_count s + 1\<rparr>"
      have h: "hit s q = s1" using full False by (simp add: hit_def Let_def s1_def)
      have uq1: "unat (q + 1) = Suc p" using uq p(2) unat_succ_lt26[of q] by simp
      have a1: "filter (bit (s_set s1)) [unat (s_cursor s1)..<26] = rest"
        using p(5) uq1 by (simp add: s1_def)
      have a2: "unat (s_count s1) + length rest = unat (s_size s1)"
        using Cons.prems(2) cnt by (simp add: s1_def)
      have a3: "j' \<le> length rest" using Cons.prems(3) Suc by simp
      from Cons.IH[OF a1 a2 a3]
      have ih: "fst (next_pos_calls j' s1) = map of_nat (take j' rest)"
        "j' = length rest \<and> 0 < j' \<longrightarrow> snd (next_pos_calls j' s1) = s1\<lparr>s_cursor := 0, s_count := 0\<rparr>"
        by auto
      have r: "s1\<lparr>s_cursor := 0, s_count := 0\<rparr> = s\<lparr>s_cursor := 0, s_count := 0\<rparr>"
        by (simp add: s1_def)
      have j'pos: "j = length (p # rest) \<Longrightarrow> 0 < j'" using Suc False by auto
      show ?thesis
        using Suc step h ih r j'pos q_def by (auto simp: split_beta)
    qed
  qed
qed

lemma next_pos_calls_all:
  assumes "size_ok s" "in_range 26 s" "s_cursor s = 0" "s_count s = 0"
  shows "next_pos_calls (unat (s_size s)) s = (map of_nat (members s), s)"
proof -
  have "{i. bit (s_set s) i} = set (members s)"
    using assms(2) by (auto simp: members_def MAX_ATTRIBS_def in_range_iff attrs_def)
  moreover have "distinct (members s)" by (simp add: members_def)
  ultimately have "card {i. bit (s_set s) i} = length (members s)"
    by (simp add: distinct_card)
  then have len: "length (members s) = unat (s_size s)"
    using assms(1) by (simp add: size_ok_def popcount_card)
  have f: "filter (bit (s_set s)) [unat (s_cursor s)..<26] = members s"
    using assms(3) by (simp add: members_def MAX_ATTRIBS_def)
  have c: "unat (s_count s) + length (members s) = unat (s_size s)"
    using assms(4) len by simp
  from calls_from[OF f c, of "unat (s_size s)"] len
  have 1: "fst (next_pos_calls (unat (s_size s)) s) = map of_nat (members s)"
    and 2: "0 < unat (s_size s) \<longrightarrow> snd (next_pos_calls (unat (s_size s)) s) = s\<lparr>s_cursor := 0, s_count := 0\<rparr>"
    by auto
  have "s\<lparr>s_cursor := 0, s_count := 0\<rparr> = s" using assms(3,4) by simp
  with 1 2 show ?thesis
    by (cases "unat (s_size s)") (auto simp: prod_eq_iff)
qed

lemma next_pos_invalid:
  assumes "fst (Set_next_pos s) = INVALID_ATTRIB"
  shows "snd (Set_next_pos s) = s \<and> (\<forall>j. unat (s_cursor s) \<le> j \<and> j < 26 \<longrightarrow> \<not> bit (s_set s) j)"
proof -
  have none: "\<forall>j. unat (s_cursor s) \<le> j \<and> j < 26 \<longrightarrow> \<not> bit (s_set s) j"
  proof (rule ccontr)
    assume "\<not> ?thesis"
    then obtain j where j: "unat (s_cursor s) \<le> j \<and> j < 26 \<and> bit (s_set s) j" by blast
    define p where "p = (LEAST j. unat (s_cursor s) \<le> j \<and> j < 26 \<and> bit (s_set s) j)"
    have p: "unat (s_cursor s) \<le> p \<and> p < 26 \<and> bit (s_set s) p"
      unfolding p_def by (rule LeastI[of _ j]) (rule j)
    have least: "\<And>k. unat (s_cursor s) \<le> k \<and> k < p \<Longrightarrow> \<not> bit (s_set s) k"
    proof
      fix k assume k: "unat (s_cursor s) \<le> k \<and> k < p" and b: "bit (s_set s) k"
      then have "unat (s_cursor s) \<le> k \<and> k < 26 \<and> bit (s_set s) k" using p by simp
      then have "p \<le> k" unfolding p_def by (rule Least_le)
      with k show False by simp
    qed
    define q :: "8 word" where "q = of_nat p"
    have uq: "unat q = p" using p by (simp add: q_def unat_of_nat)
    have "Set_next_pos s = (q, hit s q)"
      unfolding Set_next_pos_def using p uq least by (intro scan_finds) auto
    moreover have "q \<noteq> INVALID_ATTRIB"
      using uq p by (auto simp: INVALID_ATTRIB_def MAX_ATTRIBS_def)
    ultimately show False using assms by simp
  qed
  then have "Set_next_pos s = (INVALID_ATTRIB, s)"
    unfolding Set_next_pos_def by (rule scan_none)
  with none show ?thesis by simp
qed

lemma members_set: "in_range MAX_ATTRIBS s \<Longrightarrow> set (members s) = attrs s"
  by (auto simp: members_def in_range_iff attrs_def)

lemma members_sorted: "sorted (members s) \<and> distinct (members s)"
  unfolding members_def by (simp add: sorted_wrt_filter del: upt_conv_Cons)

lemma members_length:
  assumes "size_ok s" "in_range MAX_ATTRIBS s"
  shows "length (members s) = unat (s_size s)"
proof -
  have "card (attrs s) = length (members s)"
    using members_set[OF assms(2)] members_sorted[of s] by (metis distinct_card)
  then show ?thesis using assms(1) by (simp add: size_ok_def popcount_attrs)
qed

section \<open>Properties of attribute sets\<close>

subsection \<open>Enumeration with \<^verbatim>\<open>Set_next_pos\<close>\<close>

text \<open>
  On the one-element set \<open>{0}\<close> the first call returns the member 0 and, because it is the last
  member, resets cursor and count at once; the call after the enumeration is exhausted returns
  0 again and not \<^verbatim>\<open>INVALID_ATTRIB\<close>.
\<close>

theorem Set_next_pos_counterexample:
  "Set_next_pos \<lparr>s_set = 1, s_size = 1, s_cursor = 0, s_count = 0\<rparr>
     = (0, \<lparr>s_set = 1, s_size = 1, s_cursor = 0, s_count = 0\<rparr>) \<and>
   fst (Set_next_pos (snd (Set_next_pos \<lparr>s_set = 1, s_size = 1, s_cursor = 0, s_count = 0\<rparr>)))
     \<noteq> INVALID_ATTRIB"
  by code_simp

text \<open>
  C7 (as amended).  For a set whose size field is its number of members, whose members are all
  below \<^verbatim>\<open>MAX_ATTRIBS\<close> and whose cursor and count are 0, \<open>k\<close> successive calls of
  \<^verbatim>\<open>Set_next_pos\<close> (\<open>k\<close> at most the size) return the \<open>k\<close> smallest members in ascending
  order, and after exactly size calls the set is as it was before the first one: the call
  that returns the last member resets cursor and count itself, so the next call starts over.
  \<^verbatim>\<open>INVALID_ATTRIB\<close> is returned by a call on the empty set, and whenever it is returned (for
  any set \<open>t\<close>) no member lies at or after the cursor and the call has changed nothing.
\<close>

theorem Set_next_pos_enumeration:
  assumes "size_ok s" "in_range MAX_ATTRIBS s" "s_cursor s = 0" "s_count s = 0"
  shows "(\<forall>k \<le> unat (s_size s). fst (next_pos_calls k s) = map of_nat (take k (members s))) \<and>
         snd (next_pos_calls (unat (s_size s)) s) = s \<and>
         sorted (members s) \<and> distinct (members s) \<and> set (members s) = attrs s \<and>
         (s_set s = 0 \<longrightarrow> Set_next_pos s = (INVALID_ATTRIB, s)) \<and>
         (fst (Set_next_pos t) = INVALID_ATTRIB \<longrightarrow>
            snd (Set_next_pos t) = t \<and>
            (\<forall>j. unat (s_cursor t) \<le> j \<and> j < MAX_ATTRIBS \<longrightarrow> \<not> bit (s_set t) j))"
proof -
  have len: "length (members s) = unat (s_size s)"
    using assms(1,2) by (rule members_length)
  have f: "filter (bit (s_set s)) [unat (s_cursor s)..<26] = members s"
    using assms(3) by (simp add: members_def MAX_ATTRIBS_def)
  have c: "unat (s_count s) + length (members s) = unat (s_size s)"
    using assms(4) len by simp
  have 1: "\<forall>k \<le> unat (s_size s). fst (next_pos_calls k s) = map of_nat (take k (members s))"
    using calls_from[OF f c] len by simp
  have 2: "snd (next_pos_calls (unat (s_size s)) s) = s"
    using next_pos_calls_all[OF assms(1) _ assms(3,4)] assms(2) by (simp add: MAX_ATTRIBS_def)
  have 3: "s_set s = 0 \<longrightarrow> Set_next_pos s = (INVALID_ATTRIB, s)"
  proof
    assume "s_set s = 0"
    then have "\<forall>j. unat (s_cursor s) \<le> j \<and> j < 26 \<longrightarrow> \<not> bit (s_set s) j" by simp
    then show "Set_next_pos s = (INVALID_ATTRIB, s)"
      unfolding Set_next_pos_def by (rule scan_none)
  qed
  show ?thesis
    using 1 2 3 members_sorted[of s] members_set[OF assms(2)] next_pos_invalid[of t]
    by (simp add: MAX_ATTRIBS_def)
qed

theorem Set_next_pos_enumeration_witness:
  "size_ok \<lparr>s_set = 22, s_size = 3, s_cursor = 0, s_count = 0\<rparr> \<and>
   in_range MAX_ATTRIBS \<lparr>s_set = 22, s_size = 3, s_cursor = 0, s_count = 0\<rparr> \<and>
   fst (next_pos_calls 2 \<lparr>s_set = 22, s_size = 3, s_cursor = 0, s_count = 0\<rparr>) = [1, 2] \<and>
   next_pos_calls 3 \<lparr>s_set = 22, s_size = 3, s_cursor = 0, s_count = 0\<rparr>
     = ([1, 2, 4], \<lparr>s_set = 22, s_size = 3, s_cursor = 0, s_count = 0\<rparr>) \<and>
   Set_next_pos \<lparr>s_set = 0, s_size = 0, s_cursor = 0, s_count = 0\<rparr>
     = (INVALID_ATTRIB, \<lparr>s_set = 0, s_size = 0, s_cursor = 0, s_count = 0\<rparr>)"
proof -
  let ?s = "\<lparr>s_set = 22, s_size = 3, s_cursor = 0, s_count = 0\<rparr>"
  let ?e = "\<lparr>s_set = 0, s_size = 0, s_cursor = 0, s_count = 0\<rparr>"
  have h1: "size_ok ?s" by code_simp
  have h2: "in_range MAX_ATTRIBS ?s" by code_simp
  have e1: "size_ok ?e" by code_simp
  have e2: "in_range MAX_ATTRIBS ?e" by code_simp
  have m: "members ?s = [1, 2, 4]" by code_simp
  have a: "fst (next_pos_calls 2 ?s) = map of_nat (take 2 (members ?s))"
    and b: "snd (next_pos_calls (unat (s_size ?s)) ?s) = ?s"
    and b': "fst (next_pos_calls (unat (s_size ?s)) ?s) = map of_nat (take (unat (s_size ?s)) (members ?s))"
    using Set_next_pos_enumeration[OF h1 h2, of ?s] by simp_all
  have c: "Set_next_pos ?e = (INVALID_ATTRIB, ?e)"
    using Set_next_pos_enumeration[OF e1 e2, of ?e] by simp
  have "next_pos_calls 3 ?s = ([1, 2, 4], ?s)"
    using b b' m by (simp add: prod_eq_iff)
  then show ?thesis using h1 h2 a m c by simp
qed

subsection \<open>Mutators\<close>

text \<open>
  C8.  \<^verbatim>\<open>Set_insert\<close> of a valid attribute that is already present leaves the set as it is;
  \<^verbatim>\<open>Set_remove\<close> fails when the attribute is out of range or absent; and both fail when the
  cursor is not 0, that is, while an enumeration is in progress.
\<close>

theorem Set_mutators_fail_or_noop:
  "(unat i < MAX_ATTRIBS \<and> s_cursor s = 0 \<and> bit (s_set s) (unat i) \<longrightarrow> Set_insert s i = Inr s) \<and>
   (\<not> unat i < MAX_ATTRIBS \<longrightarrow> Set_remove s i = Inl Invalid_attribute) \<and>
   (unat i < MAX_ATTRIBS \<and> \<not> bit (s_set s) (unat i) \<longrightarrow> Set_remove s i = Inl Not_contained) \<and>
   (s_cursor s \<noteq> 0 \<longrightarrow> isl (Set_insert s i) \<and> isl (Set_remove s i))"
  by (simp add: Set_insert_def Set_remove_def bit_test_iff bit_test_iff0)

theorem Set_mutators_fail_or_noop_witness:
  "Set_insert \<lparr>s_set = 5, s_size = 2, s_cursor = 0, s_count = 0\<rparr> 2
      = Inr \<lparr>s_set = 5, s_size = 2, s_cursor = 0, s_count = 0\<rparr> \<and>
   Set_remove \<lparr>s_set = 5, s_size = 2, s_cursor = 0, s_count = 0\<rparr> 26 = Inl Invalid_attribute \<and>
   Set_remove \<lparr>s_set = 5, s_size = 2, s_cursor = 0, s_count = 0\<rparr> 1 = Inl Not_contained \<and>
   isl (Set_insert \<lparr>s_set = 5, s_size = 2, s_cursor = 1, s_count = 1\<rparr> 1) \<and>
   isl (Set_remove \<lparr>s_set = 5, s_size = 2, s_cursor = 1, s_count = 1\<rparr> 2)"
proof -
  have b2: "bit (5 :: 32 word) 2" and b1: "\<not> bit (5 :: 32 word) 1" by simp_all
  note t = Set_mutators_fail_or_noop
  show ?thesis
    using t[of 2 "\<lparr>s_set = 5, s_size = 2, s_cursor = 0, s_count = 0\<rparr>"]
          t[of 26 "\<lparr>s_set = 5, s_size = 2, s_cursor = 0, s_count = 0\<rparr>"]
          t[of 1 "\<lparr>s_set = 5, s_size = 2, s_cursor = 0, s_count = 0\<rparr>"]
          t[of 1 "\<lparr>s_set = 5, s_size = 2, s_cursor = 1, s_count = 1\<rparr>"]
          t[of 2 "\<lparr>s_set = 5, s_size = 2, s_cursor = 1, s_count = 1\<rparr>"] b1 b2
    by (simp add: MAX_ATTRIBS_def)
qed

subsection \<open>Difference\<close>

text \<open>
  C9.  The difference stays in the valid attribute range: for every set \<open>a\<close> with no position
  outside \<^verbatim>\<open>USED_MASK\<close> (every set that \<^verbatim>\<open>Set_init\<close>, \<^verbatim>\<open>Set_insert\<close>, \<^verbatim>\<open>Set_full\<close> and the
  set operations can build) and for every \<open>b\<close>, the result of \<^verbatim>\<open>Set_difference(a, b)\<close> has no
  position at 26 or above, although the complement of \<open>b\<close> has all of them: the result is
  \<open>a.set & ~b.set\<close>, so the positions of the complement outside the range never enter it.
  The header-only revision of the function applies \<^verbatim>\<open>USED_MASK\<close> to the complement
  explicitly, with the same result.
\<close>

theorem Set_difference_in_range:
  "(s_set a AND NOT USED_MASK = 0 \<longrightarrow> s_set (Set_difference a b) AND NOT USED_MASK = 0) \<and>
   s_set (Set_difference a b) = s_set a AND NOT (s_set b) \<and>
   s_set (Set_difference_hdr a b) AND NOT USED_MASK = 0"
proof -
  have "s_set (Set_difference a b) AND NOT USED_MASK = 0" if "s_set a AND NOT USED_MASK = 0"
    using that by (auto simp: not_used_iff Set_difference_def Let_def bit_and_iff)
  moreover have "s_set (Set_difference_hdr a b) AND NOT USED_MASK = 0"
    by (subst not_used_iff)
       (auto simp: Set_difference_hdr_def Let_def bit_and_iff USED_MASK_mask bit_mask_iff)
  ultimately show ?thesis by (simp add: Set_difference_def Let_def)
qed

theorem Set_difference_in_range_witness:
  "s_set \<lparr>s_set = 7, s_size = 3, s_cursor = 0, s_count = 0\<rparr> AND NOT USED_MASK = 0 \<and>
   s_set (Set_difference \<lparr>s_set = 7, s_size = 3, s_cursor = 0, s_count = 0\<rparr>
                         \<lparr>s_set = 2, s_size = 1, s_cursor = 0, s_count = 0\<rparr>) AND NOT USED_MASK = 0 \<and>
   s_set (Set_difference \<lparr>s_set = 7, s_size = 3, s_cursor = 0, s_count = 0\<rparr>
                         \<lparr>s_set = 2, s_size = 1, s_cursor = 0, s_count = 0\<rparr>) = 5"
proof -
  have h: "s_set \<lparr>s_set = 7, s_size = 3, s_cursor = 0, s_count = 0\<rparr> AND NOT USED_MASK = 0"
    by (simp add: USED_MASK_def)
  show ?thesis
    using h Set_difference_in_range[of "\<lparr>s_set = 7, s_size = 3, s_cursor = 0, s_count = 0\<rparr>"
        "\<lparr>s_set = 2, s_size = 1, s_cursor = 0, s_count = 0\<rparr>"]
    by (simp add: USED_MASK_def)
qed

subsection \<open>The size field\<close>

text \<open>
  C10.  Every operation of set.c establishes or keeps \<open>size = popcount(set)\<close>: union,
  intersection, difference, init, clear and full establish it; copy, insert, remove and
  \<^verbatim>\<open>Set_next_pos\<close> keep it.  For a set with this invariant that lies inside the universe of
  \<open>n\<close> attributes, \<^verbatim>\<open>Set_is_full\<close>, which compares the size field only, says whether the
  bit mask is that of \<^verbatim>\<open>Set_full\<close>.
\<close>

theorem size_is_popcount:
  "size_ok (Set_union s t) \<and> size_ok (Set_intersection s t) \<and> size_ok (Set_difference s t) \<and>
   size_ok Set_init \<and> size_ok Set_clear \<and>
   (size_ok s \<longrightarrow> size_ok (Set_copy s)) \<and>
   (\<forall>f. Set_full n = Inr f \<longrightarrow> size_ok f) \<and>
   (\<forall>s'. size_ok s \<and> Set_insert s i = Inr s' \<longrightarrow> size_ok s') \<and>
   (\<forall>s'. size_ok s \<and> Set_remove s i = Inr s' \<longrightarrow> size_ok s') \<and>
   (size_ok s \<longrightarrow> size_ok (snd (Set_next_pos s))) \<and>
   (\<forall>f. size_ok s \<and> in_range (unat n) s \<and> Set_full n = Inr f \<longrightarrow>
        Set_is_full s n = Inr (s_set s = s_set f))"
proof -
  have full: "Set_is_full s n = Inr (s_set s = s_set f)"
    if "size_ok s" "in_range (unat n) s" "Set_full n = Inr f" for f
  proof -
    from that(3) have n: "unat n \<le> MAX_ATTRIBS" and f: "s_set f = 2 ^ unat n - 1"
      by (auto simp: Set_full_def split: if_splits)
    show ?thesis using full_iff[OF that(1) n that(2)] f by simp
  qed
  show ?thesis
    using size_ok_union size_ok_intersection size_ok_difference size_ok_init size_ok_clear
      size_ok_copy[of s] size_ok_full[of n] size_ok_insert[of s i] size_ok_remove[of s i]
      size_ok_next_pos[of s] full
    by blast
qed

theorem size_is_popcount_witness:
  "size_ok \<lparr>s_set = 5, s_size = 2, s_cursor = 0, s_count = 0\<rparr> \<and>
   size_ok (Set_copy \<lparr>s_set = 5, s_size = 2, s_cursor = 0, s_count = 0\<rparr>) \<and>
   Set_full 3 = Inr \<lparr>s_set = 7, s_size = 3, s_cursor = 0, s_count = 0\<rparr> \<and>
   size_ok \<lparr>s_set = 7, s_size = 3, s_cursor = 0, s_count = 0\<rparr> \<and>
   Set_insert \<lparr>s_set = 5, s_size = 2, s_cursor = 0, s_count = 0\<rparr> 1
      = Inr \<lparr>s_set = 7, s_size = 3, s_cursor = 0, s_count = 0\<rparr> \<and>
   Set_remove \<lparr>s_set = 5, s_size = 2, s_cursor = 0, s_count = 0\<rparr> 2
      = Inr \<lparr>s_set = 1, s_size = 1, s_cursor = 0, s_count = 0\<rparr> \<and>
   size_ok \<lparr>s_set = 1, s_size = 1, s_cursor = 0, s_count = 0\<rparr> \<and>
   in_range (unat (3 :: 8 word)) \<lparr>s_set = 5, s_size = 2, s_cursor = 0, s_count = 0\<rparr> \<and>
   Set_is_full \<lparr>s_set = 5, s_size = 2, s_cursor = 0, s_count = 0\<rparr> 3 = Inr False \<and>
   Set_is_full \<lparr>s_set = 7, s_size = 3, s_cursor = 0, s_count = 0\<rparr> 3 = Inr True"
proof -
  let ?s = "\<lparr>s_set = 5, s_size = 2, s_cursor = 0, s_count = 0\<rparr>"
  let ?f = "\<lparr>s_set = 7, s_size = 3, s_cursor = 0, s_count = 0\<rparr>"
  let ?r = "\<lparr>s_set = 1, s_size = 1, s_cursor = 0, s_count = 0\<rparr>"
  have h: "size_ok ?s" by code_simp
  have r: "in_range (unat (3 :: 8 word)) ?s" "in_range (unat (3 :: 8 word)) ?f" by code_simp+
  have f: "Set_full 3 = Inr ?f" by code_simp
  have i: "Set_insert ?s 1 = Inr ?f" by code_simp
  have d: "Set_remove ?s 2 = Inr ?r" by code_simp
  note t = size_is_popcount[of ?s ?s 3 1] size_is_popcount[of ?s ?s 3 2]
    size_is_popcount[of ?f ?f 3 1]
  have "size_ok (Set_copy ?s)" using t(1) h by blast
  moreover have ff: "size_ok ?f" using t(1) f by blast
  moreover have "size_ok ?r" using t(2) h d by blast
  moreover have "Set_is_full ?s 3 = Inr (s_set ?s = s_set ?f)" using t(1) h r f by blast
  moreover have "Set_is_full ?f 3 = Inr (s_set ?f = s_set ?f)" using t(3) ff r f by blast
  ultimately show ?thesis using h r f i d by simp
qed

section \<open>The queue of functional dependencies (queue.h, queue.c)\<close>

text \<open>
  \<^verbatim>\<open>typedef struct { Set lhs; Set rhs; } q_key_t;\<close>  The singly linked queue is the list of
  its keys from the tail (the oldest node, where \<^verbatim>\<open>Q_iterator\<close> starts and \<^verbatim>\<open>Q_pop\<close>
  removes) to the head (where \<^verbatim>\<open>Q_insert\<close> appends).  Its \<^verbatim>\<open>size\<close> field counts the nodes in a
  \<^verbatim>\<open>uint32_t\<close>; the queues of the search hold keys with pairwise different masks below
  \<open>2 ^ 26\<close>, so the counter does not wrap and \<^verbatim>\<open>size != 0\<close> is read as: the list is not empty.
  \<^verbatim>\<open>Q_pop\<close> asserts \<^verbatim>\<open>size > 0\<close>.
\<close>

record q_key_t =
  lhs :: Set
  rhs :: Set

type_synonym Queue = "q_key_t list"

definition Q_init :: Queue where
  "Q_init = []"

definition Q_insert :: "Queue \<Rightarrow> q_key_t \<Rightarrow> Queue" where
  "Q_insert q key = q @ [key]"

definition Q_pop :: "Queue \<Rightarrow> error + (q_key_t \<times> Queue)" where
  "Q_pop q = (case q of [] \<Rightarrow> Inl Empty_queue | key # rest \<Rightarrow> Inr (key, rest))"

section \<open>Closure and super-key test (func_dep.c)\<close>

text \<open>
  \<^verbatim>\<open>compute_closure\<close>.  One pass of the inner \<^verbatim>\<open>while (iter)\<close> loop over the dependencies
  ends in one of three ways: an assertion of \<^verbatim>\<open>Set_is_full\<close> fails, the closure becomes
  full (\<^verbatim>\<open>goto end\<close>), or the queue is exhausted with the current closure and the flag
  \<^verbatim>\<open>is_new_attrib\<close>.
\<close>

datatype closure_pass = Pass_failed error | Pass_full Set | Pass_over Set bool

fun closure_iter :: "Queue \<Rightarrow> 8 word \<Rightarrow> Set \<Rightarrow> bool \<Rightarrow> closure_pass" where
  "closure_iter [] n_attribs closure is_new_attrib = Pass_over closure is_new_attrib"
| "closure_iter (key # iter) n_attribs closure is_new_attrib =
     (if Set_contains closure (lhs key) \<and> \<not> Set_contains closure (rhs key) then
        (let closure' = Set_union closure (rhs key)
         in case Set_is_full closure' n_attribs of
              Inl e \<Rightarrow> Pass_failed e
            | Inr True \<Rightarrow> Pass_full closure'
            | Inr False \<Rightarrow> closure_iter iter n_attribs closure' True)
      else closure_iter iter n_attribs closure is_new_attrib)"

lemma closure_iter_grows:
  "closure_iter iter n c f = Pass_over c' f' \<Longrightarrow>
     (c' = c \<and> f' = f) \<or> (f' \<and> attrs c \<subset> attrs c')"
proof (induction iter arbitrary: c f)
  case Nil
  then show ?case by simp
next
  case (Cons key iter)
  show ?case
  proof (cases "Set_contains c (lhs key) \<and> \<not> Set_contains c (rhs key)")
    case False
    with Cons.prems have "closure_iter iter n c f = Pass_over c' f'" by auto
    then show ?thesis by (rule Cons.IH)
  next
    case True
    let ?u = "Set_union c (rhs key)"
    from True Cons.prems have r: "closure_iter iter n ?u True = Pass_over c' f'"
      by (auto simp: Let_def split: sum.splits bool.splits)
    have "attrs c \<subset> attrs ?u"
      using True by (auto simp: contains_iff attrs_union)
    moreover from Cons.IH[OF r] have "f' \<and> attrs ?u \<subseteq> attrs c'" by auto
    ultimately show ?thesis by auto
  qed
qed

text \<open>
  The outer loop \<^verbatim>\<open>while (is_new_attrib) { is_new_attrib = 0; ... }\<close>: the flag is 1 on
  entry, so the body runs at least once, and again as long as a pass has set the flag.  Each
  such pass has added at least one attribute, which bounds the number of passes.
\<close>

function closure_loop :: "Queue \<Rightarrow> 8 word \<Rightarrow> Set \<Rightarrow> error + Set" where
  "closure_loop q n_attribs closure =
     (case closure_iter q n_attribs closure False of
        Pass_failed e \<Rightarrow> Inl e
      | Pass_full closure' \<Rightarrow> Inr closure'
      | Pass_over closure' is_new_attrib \<Rightarrow>
          if is_new_attrib then closure_loop q n_attribs closure' else Inr closure')"
  by pat_completeness auto
termination
proof (relation "measure (\<lambda>(q, n, c). 32 - popcount (s_set c))", goal_cases)
  case 1
  show ?case by simp
next
  case (2 q n c c' f)
  then have "attrs c \<subset> attrs c'" using closure_iter_grows[of q n c False c' f] by auto
  then have "card (attrs c) < card (attrs c')"
    by (intro psubset_card_mono attrs_finite)
  moreover have "popcount (s_set c') \<le> 32" by (rule popcount_le)
  ultimately show ?case by (simp add: popcount_attrs)
qed

declare closure_loop.simps [simp del]

definition compute_closure :: "Set \<Rightarrow> Queue \<Rightarrow> 8 word \<Rightarrow> error + Set" where
  "compute_closure s q n_attribs = closure_loop q n_attribs (Set_copy s)"

text \<open>
  \<^verbatim>\<open>is_superkey\<close> repeats the loop of \<^verbatim>\<open>compute_closure\<close>, but returns 1 from inside the
  pass when the closure becomes full, and 0 when the outer loop ends.
\<close>

datatype superkey_pass = Sk_failed error | Sk_full | Sk_over Set bool

fun superkey_iter :: "Queue \<Rightarrow> 8 word \<Rightarrow> Set \<Rightarrow> bool \<Rightarrow> superkey_pass" where
  "superkey_iter [] n_attribs closure is_new_attrib = Sk_over closure is_new_attrib"
| "superkey_iter (key # iter) n_attribs closure is_new_attrib =
     (if Set_contains closure (lhs key) \<and> \<not> Set_contains closure (rhs key) then
        (let closure' = Set_union closure (rhs key)
         in case Set_is_full closure' n_attribs of
              Inl e \<Rightarrow> Sk_failed e
            | Inr True \<Rightarrow> Sk_full
            | Inr False \<Rightarrow> superkey_iter iter n_attribs closure' True)
      else superkey_iter iter n_attribs closure is_new_attrib)"

lemma superkey_iter_closure_iter:
  "superkey_iter iter n c f =
     (case closure_iter iter n c f of
        Pass_failed e \<Rightarrow> Sk_failed e
      | Pass_full c' \<Rightarrow> Sk_full
      | Pass_over c' f' \<Rightarrow> Sk_over c' f')"
  by (induction iter arbitrary: c f) (auto simp: Let_def split: sum.splits bool.splits)

function superkey_loop :: "Queue \<Rightarrow> 8 word \<Rightarrow> Set \<Rightarrow> error + bool" where
  "superkey_loop q n_attribs closure =
     (case superkey_iter q n_attribs closure False of
        Sk_failed e \<Rightarrow> Inl e
      | Sk_full \<Rightarrow> Inr True
      | Sk_over closure' is_new_attrib \<Rightarrow>
          if is_new_attrib then superkey_loop q n_attribs closure' else Inr False)"
  by pat_completeness auto
termination
proof (relation "measure (\<lambda>(q, n, c). 32 - popcount (s_set c))", goal_cases)
  case 1
  show ?case by simp
next
  case (2 q n c c' f)
  then have "closure_iter q n c False = Pass_over c' True"
    by (auto simp: superkey_iter_closure_iter split: closure_pass.splits)
  then have "attrs c \<subset> attrs c'" using closure_iter_grows[of q n c False c' True] by auto
  then have "card (attrs c) < card (attrs c')"
    by (intro psubset_card_mono attrs_finite)
  moreover have "popcount (s_set c') \<le> 32" by (rule popcount_le)
  ultimately show ?case by (simp add: popcount_attrs)
qed

declare superkey_loop.simps [simp del]

definition is_superkey :: "Set \<Rightarrow> Queue \<Rightarrow> 8 word \<Rightarrow> error + bool" where
  "is_superkey s q n_attribs = superkey_loop q n_attribs (Set_copy s)"

text \<open>A set is closed under the dependencies; the attributes of all dependencies lie below
  \<open>n\<close>; and closedness for a set of positions.\<close>

definition closed_under :: "Queue \<Rightarrow> Set \<Rightarrow> bool" where
  "closed_under q c \<longleftrightarrow> (\<forall>key \<in> set q. Set_contains c (lhs key) \<longrightarrow> Set_contains c (rhs key))"

definition deps_in_range :: "nat \<Rightarrow> Queue \<Rightarrow> bool" where
  "deps_in_range n q \<longleftrightarrow> (\<forall>key \<in> set q. in_range n (lhs key) \<and> in_range n (rhs key))"

definition closed_set :: "Queue \<Rightarrow> nat set \<Rightarrow> bool" where
  "closed_set q D \<longleftrightarrow> (\<forall>key \<in> set q. attrs (lhs key) \<subseteq> D \<longrightarrow> attrs (rhs key) \<subseteq> D)"

lemma closed_under_iff: "closed_under q c \<longleftrightarrow> closed_set q (attrs c)"
  by (simp add: closed_under_def closed_set_def contains_iff)

lemma closure_iter_failed:
  "closure_iter iter n c f = Pass_failed e \<Longrightarrow> \<not> unat n \<le> MAX_ATTRIBS"
  by (induction iter arbitrary: c f)
     (auto simp: Let_def Set_is_full_def split: sum.splits bool.splits if_splits)

lemma closure_iter_full:
  "closure_iter iter n c f = Pass_full c' \<Longrightarrow>
     size_ok c' \<and> s_size c' = n \<and> unat n \<le> MAX_ATTRIBS \<and> s_cursor c' = 0 \<and> s_count c' = 0"
proof (induction iter arbitrary: c f)
  case Nil
  then show ?case by simp
next
  case (Cons key iter)
  show ?case
  proof (cases "Set_contains c (lhs key) \<and> \<not> Set_contains c (rhs key)")
    case False
    with Cons.prems have "closure_iter iter n c f = Pass_full c'" by auto
    then show ?thesis by (rule Cons.IH)
  next
    case True
    let ?u = "Set_union c (rhs key)"
    show ?thesis
    proof (cases "Set_is_full ?u n")
      case (Inl e)
      with True Cons.prems show ?thesis by (simp add: Let_def)
    next
      case (Inr b)
      show ?thesis
      proof (cases b)
        case True
        with Inr \<open>Set_contains c (lhs key) \<and> \<not> Set_contains c (rhs key)\<close> Cons.prems
        have c': "c' = ?u" by (simp add: Let_def)
        have "s_size ?u = n \<and> unat n \<le> MAX_ATTRIBS"
          using Inr True by (auto simp: Set_is_full_def split: if_splits)
        moreover have "s_cursor ?u = 0 \<and> s_count ?u = 0" by (simp add: Set_union_def Let_def)
        ultimately show ?thesis unfolding c' using size_ok_union[of c "rhs key"] by simp
      next
        case False
        with Inr \<open>Set_contains c (lhs key) \<and> \<not> Set_contains c (rhs key)\<close> Cons.prems
        have "closure_iter iter n ?u True = Pass_full c'" by (simp add: Let_def)
        then show ?thesis by (rule Cons.IH)
      qed
    qed
  qed
qed

text \<open>What every pass keeps: the closure only grows, and stays inside every closed superset.\<close>

lemma closure_iter_bounds:
  assumes "closure_iter iter n c f = Pass_over c' f' \<or> closure_iter iter n c f = Pass_full c'"
    and "attrs c \<subseteq> D" and "closed_set iter D"
  shows "attrs c \<subseteq> attrs c' \<and> attrs c' \<subseteq> D"
  using assms
proof (induction iter arbitrary: c f)
  case Nil
  then show ?case by simp
next
  case (Cons key iter)
  have cl: "closed_set iter D" using Cons.prems(3) by (simp add: closed_set_def)
  show ?case
  proof (cases "Set_contains c (lhs key) \<and> \<not> Set_contains c (rhs key)")
    case False
    with Cons.prems(1)
    have "closure_iter iter n c f = Pass_over c' f' \<or> closure_iter iter n c f = Pass_full c'"
      by auto
    then show ?thesis using Cons.prems(2) cl by (rule Cons.IH)
  next
    case True
    let ?u = "Set_union c (rhs key)"
    have "attrs (lhs key) \<subseteq> D" using True Cons.prems(2) by (auto simp: contains_iff)
    then have "attrs (rhs key) \<subseteq> D" using Cons.prems(3) by (simp add: closed_set_def)
    then have uD: "attrs ?u \<subseteq> D" using Cons.prems(2) by (simp add: attrs_union)
    have cu: "attrs c \<subseteq> attrs ?u" by (simp add: attrs_union)
    show ?thesis
    proof (cases "Set_is_full ?u n")
      case (Inl e)
      with True Cons.prems(1) show ?thesis by (simp add: Let_def)
    next
      case (Inr b)
      show ?thesis
      proof (cases b)
        case True
        with Inr \<open>Set_contains c (lhs key) \<and> \<not> Set_contains c (rhs key)\<close> Cons.prems(1)
        have "c' = ?u" by (simp add: Let_def)
        with uD cu show ?thesis by simp
      next
        case False
        with Inr \<open>Set_contains c (lhs key) \<and> \<not> Set_contains c (rhs key)\<close> Cons.prems(1)
        have "closure_iter iter n ?u True = Pass_over c' f' \<or>
              closure_iter iter n ?u True = Pass_full c'"
          by (simp add: Let_def)
        from Cons.IH[OF this uD cl] cu show ?thesis by auto
      qed
    qed
  qed
qed

text \<open>A pass that ends with the flag down has changed nothing and found every dependency
  satisfied.\<close>

lemma closure_iter_fixpoint:
  "closure_iter iter n c f = Pass_over c' False \<Longrightarrow> c' = c \<and> \<not> f \<and> closed_under iter c"
proof (induction iter arbitrary: c f)
  case Nil
  then show ?case by (simp add: closed_under_def)
next
  case (Cons key iter)
  show ?case
  proof (cases "Set_contains c (lhs key) \<and> \<not> Set_contains c (rhs key)")
    case False
    with Cons.prems have "closure_iter iter n c f = Pass_over c' False" by auto
    from Cons.IH[OF this] False show ?thesis by (auto simp: closed_under_def)
  next
    case True
    let ?u = "Set_union c (rhs key)"
    from True Cons.prems have "closure_iter iter n ?u True = Pass_over c' False"
      by (auto simp: Let_def split: sum.splits bool.splits)
    from Cons.IH[OF this] show ?thesis by simp
  qed
qed

lemma closure_iter_not_full:
  "closure_iter iter n c f = Pass_over c' f' \<Longrightarrow>
     (c' = c \<and> f' = f) \<or> (f' \<and> s_size c' \<noteq> n \<and> size_ok c' \<and> s_cursor c' = 0 \<and> s_count c' = 0)"
proof (induction iter arbitrary: c f)
  case Nil
  then show ?case by simp
next
  case (Cons key iter)
  show ?case
  proof (cases "Set_contains c (lhs key) \<and> \<not> Set_contains c (rhs key)")
    case False
    with Cons.prems have "closure_iter iter n c f = Pass_over c' f'" by auto
    then show ?thesis by (rule Cons.IH)
  next
    case True
    let ?u = "Set_union c (rhs key)"
    from True Cons.prems have r: "closure_iter iter n ?u True = Pass_over c' f'"
      and nf: "Set_is_full ?u n = Inr False"
      by (auto simp: Let_def split: sum.splits bool.splits)
    from nf have "s_size ?u \<noteq> n" by (auto simp: Set_is_full_def split: if_splits)
    moreover have "size_ok ?u" by (rule size_ok_union)
    moreover have "s_cursor ?u = 0 \<and> s_count ?u = 0" by (simp add: Set_union_def Let_def)
    ultimately show ?thesis using Cons.IH[OF r] by auto
  qed
qed

lemma closure_loop_total:
  "unat n \<le> MAX_ATTRIBS \<Longrightarrow> \<exists>c'. closure_loop q n c = Inr c'"
proof (induction q n c rule: closure_loop.induct)
  case (1 q n c)
  show ?case
  proof (cases "closure_iter q n c False")
    case (Pass_failed e)
    with closure_iter_failed 1(2) show ?thesis by blast
  next
    case (Pass_full c')
    then show ?thesis by (simp add: closure_loop.simps[of q n c])
  next
    case (Pass_over c' f)
    with 1 show ?thesis by (cases f) (simp_all add: closure_loop.simps[of q n c])
  qed
qed

lemma closure_loop_bounds:
  "closure_loop q n c = Inr c' \<Longrightarrow> attrs c \<subseteq> D \<Longrightarrow> closed_set q D \<Longrightarrow>
     attrs c \<subseteq> attrs c' \<and> attrs c' \<subseteq> D"
proof (induction q n c rule: closure_loop.induct)
  case (1 q n c)
  show ?case
  proof (cases "closure_iter q n c False")
    case (Pass_failed e)
    with 1(2) show ?thesis by (simp add: closure_loop.simps[of q n c])
  next
    case (Pass_full c1)
    with 1(2) have "c1 = c'" by (simp add: closure_loop.simps[of q n c])
    with Pass_full closure_iter_bounds[of q n c False c' _ D] 1(3,4) show ?thesis by blast
  next
    case (Pass_over c1 f)
    have b: "attrs c \<subseteq> attrs c1 \<and> attrs c1 \<subseteq> D"
      using Pass_over closure_iter_bounds[of q n c False c1 f D] 1(3,4) by blast
    show ?thesis
    proof (cases f)
      case True
      with Pass_over 1(2) have "closure_loop q n c1 = Inr c'"
        by (simp add: closure_loop.simps[of q n c])
      with 1(1)[OF Pass_over True] b 1(4) show ?thesis by blast
    next
      case False
      with Pass_over 1(2) have "c1 = c'" by (simp add: closure_loop.simps[of q n c])
      with b show ?thesis by simp
    qed
  qed
qed

text \<open>How the loop ends: at a fixpoint of a whole pass, or at a set whose size is \<open>n\<close>.\<close>

lemma closure_loop_end:
  "closure_loop q n c = Inr c' \<Longrightarrow>
     (closure_iter q n c' False = Pass_over c' False \<and> closed_under q c') \<or>
     (size_ok c' \<and> s_size c' = n \<and> unat n \<le> MAX_ATTRIBS)"
proof (induction q n c rule: closure_loop.induct)
  case (1 q n c)
  show ?case
  proof (cases "closure_iter q n c False")
    case (Pass_failed e)
    with 1(2) show ?thesis by (simp add: closure_loop.simps[of q n c])
  next
    case (Pass_full c1)
    with 1(2) have "c1 = c'" by (simp add: closure_loop.simps[of q n c])
    with Pass_full closure_iter_full[of q n c False c'] show ?thesis by simp
  next
    case (Pass_over c1 f)
    show ?thesis
    proof (cases f)
      case True
      with Pass_over 1(2) have "closure_loop q n c1 = Inr c'"
        by (simp add: closure_loop.simps[of q n c])
      with 1(1)[OF Pass_over True] show ?thesis by blast
    next
      case False
      with Pass_over 1(2) have e: "c1 = c'" by (simp add: closure_loop.simps[of q n c])
      from Pass_over False closure_iter_fixpoint[of q n c False c1] have "c1 = c" "closed_under q c"
        by auto
      with e Pass_over False show ?thesis by simp
    qed
  qed
qed

text \<open>The size field of the result is right, unless the loop hands back its argument.\<close>

lemma closure_loop_shape:
  "closure_loop q n c = Inr c' \<Longrightarrow>
     c' = c \<or> (size_ok c' \<and> s_cursor c' = 0 \<and> s_count c' = 0)"
proof (induction q n c rule: closure_loop.induct)
  case (1 q n c)
  show ?case
  proof (cases "closure_iter q n c False")
    case (Pass_failed e)
    with 1(2) show ?thesis by (simp add: closure_loop.simps[of q n c])
  next
    case (Pass_full c1)
    with 1(2) have "c1 = c'" by (simp add: closure_loop.simps[of q n c])
    with Pass_full closure_iter_full[of q n c False c'] show ?thesis by simp
  next
    case (Pass_over c1 f)
    show ?thesis
    proof (cases f)
      case True
      with Pass_over 1(2) have "closure_loop q n c1 = Inr c'"
        by (simp add: closure_loop.simps[of q n c])
      from 1(1)[OF Pass_over True this] closure_iter_not_full[OF Pass_over] True
      show ?thesis by auto
    next
      case False
      with Pass_over 1(2) have e: "c1 = c'" by (simp add: closure_loop.simps[of q n c])
      from Pass_over False closure_iter_fixpoint[of q n c False c1] have "c1 = c" by auto
      with e show ?thesis by simp
    qed
  qed
qed

lemma range_closed: "deps_in_range n q \<Longrightarrow> closed_set q {..<n}"
  by (simp add: deps_in_range_def closed_set_def in_range_iff)

lemma full_closed:
  assumes "deps_in_range n q" "attrs c = {..<n}"
  shows "closed_under q c"
  using assms by (simp add: closed_under_def deps_in_range_def in_range_iff contains_iff)

lemma size_full_attrs:
  assumes "size_ok c" "in_range (unat n) c" "s_size c = n"
  shows "attrs c = {..<unat n}"
proof -
  have "card (attrs c) = card {..<unat n}"
    using assms(1,3) by (simp add: size_ok_def popcount_attrs)
  moreover have "attrs c \<subseteq> {..<unat n}" using assms(2) by (simp add: in_range_iff)
  ultimately show ?thesis by (simp add: card_subset_eq)
qed

lemma closed_fixpoint:
  "closed_under q c \<Longrightarrow> closure_iter q n c f = Pass_over c f"
  by (induction q) (auto simp: closed_under_def)

lemma superkey_loop_closure_loop:
  "unat n \<le> MAX_ATTRIBS \<Longrightarrow> s_size c \<noteq> n \<Longrightarrow>
   superkey_loop q n c =
     (case closure_loop q n c of Inl e \<Rightarrow> Inl e | Inr c' \<Rightarrow> Set_is_full c' n)"
proof (induction q n c rule: closure_loop.induct)
  case (1 q n c)
  show ?case
  proof (cases "closure_iter q n c False")
    case (Pass_failed e)
    then show ?thesis
      by (simp add: closure_loop.simps[of q n c] superkey_loop.simps[of q n c]
          superkey_iter_closure_iter)
  next
    case (Pass_full c1)
    from closure_iter_full[OF Pass_full] have "Set_is_full c1 n = Inr True"
      by (simp add: Set_is_full_def)
    with Pass_full show ?thesis
      by (simp add: closure_loop.simps[of q n c] superkey_loop.simps[of q n c]
          superkey_iter_closure_iter)
  next
    case (Pass_over c1 f)
    show ?thesis
    proof (cases f)
      case True
      from closure_iter_not_full[OF Pass_over] True have "s_size c1 \<noteq> n" using 1(3) by auto
      from 1(1)[OF Pass_over True 1(2) this] Pass_over True show ?thesis
        by (simp add: closure_loop.simps[of q n c] superkey_loop.simps[of q n c]
            superkey_iter_closure_iter)
    next
      case False
      from Pass_over False closure_iter_fixpoint[of q n c False c1] have "c1 = c" by auto
      with Pass_over False 1(2,3) show ?thesis
        by (simp add: closure_loop.simps[of q n c] superkey_loop.simps[of q n c]
            superkey_iter_closure_iter Set_is_full_def)
    qed
  qed
qed

lemma is_superkey_not_full:
  "unat n \<le> MAX_ATTRIBS \<Longrightarrow> s_size s \<noteq> n \<Longrightarrow>
   is_superkey s q n =
     (case compute_closure s q n of Inl e \<Rightarrow> Inl e | Inr c \<Rightarrow> Set_is_full c n)"
  unfolding is_superkey_def compute_closure_def
  by (rule superkey_loop_closure_loop) (simp_all add: Set_copy_def)

text \<open>The result of the closure loop, in terms of sets of positions.\<close>

lemma closure_props:
  assumes "unat n \<le> MAX_ATTRIBS" "deps_in_range (unat n) q" "in_range (unat n) s"
  shows "\<exists>c. closure_loop q n (Set_copy s) = Inr c \<and> attrs s \<subseteq> attrs c \<and>
           closed_set q (attrs c) \<and>
           (\<forall>D. attrs s \<subseteq> D \<and> closed_set q D \<longrightarrow> attrs c \<subseteq> D) \<and>
           in_range (unat n) c"
proof -
  from closure_loop_total[OF assms(1)] obtain c where c: "closure_loop q n (Set_copy s) = Inr c"
    by blast
  have cp: "attrs (Set_copy s) = attrs s" by (simp add: attrs_def Set_copy_def)
  have 1: "attrs s \<subseteq> attrs c"
    using closure_loop_bounds[OF c, of UNIV] cp by (simp add: closed_set_def)
  have 2: "attrs c \<subseteq> D" if "attrs s \<subseteq> D" "closed_set q D" for D
    using closure_loop_bounds[OF c, of D] cp that by simp
  have r: "in_range (unat n) c"
    using 2[of "{..<unat n}"] assms(2,3) by (simp add: in_range_iff range_closed)
  have 3: "closed_under q c"
    using closure_loop_end[OF c]
  proof
    assume "closure_iter q n c False = Pass_over c False \<and> closed_under q c"
    then show ?thesis by simp
  next
    assume "size_ok c \<and> s_size c = n \<and> unat n \<le> MAX_ATTRIBS"
    then have "attrs c = {..<unat n}" using r by (simp add: size_full_attrs)
    with assms(2) show ?thesis by (rule full_closed)
  qed
  show ?thesis
    using c 1 2 3 r by (auto simp: closed_under_iff)
qed

subsection \<open>The closure\<close>

text \<open>
  C5.  For at most \<^verbatim>\<open>MAX_ATTRIBS\<close> attributes, dependencies whose attributes are all below
  \<open>n\<close> and a seed below \<open>n\<close>, \<^verbatim>\<open>compute_closure\<close> returns (no assertion fails, and the loop
  ends) a set that contains the seed, is closed under every dependency, and is contained in
  every set that contains the seed and is closed: the least closed superset.  A further
  pass over it adds nothing (it is a fixpoint), and it stays below \<open>n\<close>.
\<close>

theorem compute_closure_least_closed:
  assumes "unat n \<le> MAX_ATTRIBS" "deps_in_range (unat n) q" "in_range (unat n) s"
  shows "\<exists>c. compute_closure s q n = Inr c \<and>
           Set_contains c s \<and> closed_under q c \<and>
           (\<forall>c'. Set_contains c' s \<and> closed_under q c' \<longrightarrow> Set_contains c' c) \<and>
           closure_iter q n c False = Pass_over c False \<and>
           in_range (unat n) c"
proof -
  from closure_props[OF assms] obtain c where
    c: "closure_loop q n (Set_copy s) = Inr c" and 1: "attrs s \<subseteq> attrs c"
    and 2: "closed_set q (attrs c)"
    and 3: "\<forall>D. attrs s \<subseteq> D \<and> closed_set q D \<longrightarrow> attrs c \<subseteq> D"
    and r: "in_range (unat n) c"
    by blast
  have cl: "closed_under q c" using 2 by (simp add: closed_under_iff)
  have least: "Set_contains c' c" if "Set_contains c' s \<and> closed_under q c'" for c'
    using that 3 by (simp add: contains_iff closed_under_iff)
  have fp: "closure_iter q n c False = Pass_over c False" using cl by (rule closed_fixpoint)
  show ?thesis
    using c 1 cl least fp r by (auto simp: compute_closure_def contains_iff)
qed

theorem compute_closure_least_closed_witness:
  "unat (3 :: 8 word) \<le> MAX_ATTRIBS \<and>
   deps_in_range (unat (3 :: 8 word))
     [\<lparr>lhs = \<lparr>s_set = 1, s_size = 1, s_cursor = 0, s_count = 0\<rparr>,
        rhs = \<lparr>s_set = 2, s_size = 1, s_cursor = 0, s_count = 0\<rparr>\<rparr>,
      \<lparr>lhs = \<lparr>s_set = 2, s_size = 1, s_cursor = 0, s_count = 0\<rparr>,
        rhs = \<lparr>s_set = 4, s_size = 1, s_cursor = 0, s_count = 0\<rparr>\<rparr>] \<and>
   in_range (unat (3 :: 8 word)) \<lparr>s_set = 2, s_size = 1, s_cursor = 0, s_count = 0\<rparr> \<and>
   compute_closure \<lparr>s_set = 2, s_size = 1, s_cursor = 0, s_count = 0\<rparr>
     [\<lparr>lhs = \<lparr>s_set = 1, s_size = 1, s_cursor = 0, s_count = 0\<rparr>,
        rhs = \<lparr>s_set = 2, s_size = 1, s_cursor = 0, s_count = 0\<rparr>\<rparr>,
      \<lparr>lhs = \<lparr>s_set = 2, s_size = 1, s_cursor = 0, s_count = 0\<rparr>,
        rhs = \<lparr>s_set = 4, s_size = 1, s_cursor = 0, s_count = 0\<rparr>\<rparr>] 3
     = Inr \<lparr>s_set = 6, s_size = 2, s_cursor = 0, s_count = 0\<rparr> \<and>
   closed_under
     [\<lparr>lhs = \<lparr>s_set = 1, s_size = 1, s_cursor = 0, s_count = 0\<rparr>,
        rhs = \<lparr>s_set = 2, s_size = 1, s_cursor = 0, s_count = 0\<rparr>\<rparr>,
      \<lparr>lhs = \<lparr>s_set = 2, s_size = 1, s_cursor = 0, s_count = 0\<rparr>,
        rhs = \<lparr>s_set = 4, s_size = 1, s_cursor = 0, s_count = 0\<rparr>\<rparr>]
     \<lparr>s_set = 6, s_size = 2, s_cursor = 0, s_count = 0\<rparr>"
proof -
  let ?q = "[\<lparr>lhs = \<lparr>s_set = 1, s_size = 1, s_cursor = 0, s_count = 0\<rparr>,
        rhs = \<lparr>s_set = 2, s_size = 1, s_cursor = 0, s_count = 0\<rparr>\<rparr>,
      \<lparr>lhs = \<lparr>s_set = 2, s_size = 1, s_cursor = 0, s_count = 0\<rparr>,
        rhs = \<lparr>s_set = 4, s_size = 1, s_cursor = 0, s_count = 0\<rparr>\<rparr>]"
  let ?s = "\<lparr>s_set = 2, s_size = 1, s_cursor = 0, s_count = 0\<rparr>"
  have h1: "unat (3 :: 8 word) \<le> MAX_ATTRIBS" by code_simp
  have h2: "deps_in_range (unat (3 :: 8 word)) ?q" by code_simp
  have h3: "in_range (unat (3 :: 8 word)) ?s" by code_simp
  have v: "compute_closure ?s ?q 3 = Inr \<lparr>s_set = 6, s_size = 2, s_cursor = 0, s_count = 0\<rparr>"
    by code_simp
  from compute_closure_least_closed[OF h1 h2 h3] v
  have "closed_under ?q \<lparr>s_set = 6, s_size = 2, s_cursor = 0, s_count = 0\<rparr>"
    by auto
  with h1 h2 h3 v show ?thesis by blast
qed

subsection \<open>The two super-key tests\<close>

text \<open>
  C4.  On the full set of a universe of two attributes with the dependency \<open>A \<rightarrow> B\<close>,
  \<^verbatim>\<open>is_superkey\<close> returns 0, because no dependency adds anything and the test for fullness
  sits after the union only; \<^verbatim>\<open>compute_closure\<close> returns the seed, which \<^verbatim>\<open>Set_is_full\<close>
  finds full.  (For a seed whose size is not \<open>n\<close> the two agree: \<open>is_superkey_not_full\<close>.)
\<close>

theorem is_superkey_full_set_diverges:
  "Set_full 2 = Inr \<lparr>s_set = 3, s_size = 2, s_cursor = 0, s_count = 0\<rparr> \<and>
   is_superkey \<lparr>s_set = 3, s_size = 2, s_cursor = 0, s_count = 0\<rparr>
     [\<lparr>lhs = \<lparr>s_set = 1, s_size = 1, s_cursor = 0, s_count = 0\<rparr>,
        rhs = \<lparr>s_set = 2, s_size = 1, s_cursor = 0, s_count = 0\<rparr>\<rparr>] 2 = Inr False \<and>
   compute_closure \<lparr>s_set = 3, s_size = 2, s_cursor = 0, s_count = 0\<rparr>
     [\<lparr>lhs = \<lparr>s_set = 1, s_size = 1, s_cursor = 0, s_count = 0\<rparr>,
        rhs = \<lparr>s_set = 2, s_size = 1, s_cursor = 0, s_count = 0\<rparr>\<rparr>] 2
     = Inr \<lparr>s_set = 3, s_size = 2, s_cursor = 0, s_count = 0\<rparr> \<and>
   Set_is_full \<lparr>s_set = 3, s_size = 2, s_cursor = 0, s_count = 0\<rparr> 2 = Inr True"
  by code_simp

section \<open>Reduction of a super-key to a candidate key (func_dep.c)\<close>

lemma next_pos_measure:
  assumes "i < s_size s" "(p, s') = Set_next_pos s"
  shows "unat (s_size s') - unat (i + 1) < unat (s_size s) - unat i"
proof -
  have "s_size s' = s_size s" using Set_next_pos_frame[of s p s'] assms(2) by simp
  moreover have "unat (i + 1) = unat i + 1" using assms(1) by (rule unat_succ_below)
  moreover have "unat i < unat (s_size s)" using assms(1) by (simp add: word_less_nat_alt)
  ultimately show ?thesis by simp
qed

text \<open>
  \<^verbatim>\<open>candidate_key_from_super_key\<close>: the loop
  \<^verbatim>\<open>for (i = 0; i < skey->size; ++i)\<close> takes the next attribute of \<^verbatim>\<open>skey\<close>, removes it from
  a copy \<^verbatim>\<open>temp\<close> of \<^verbatim>\<open>ckey\<close> and keeps the removal when \<^verbatim>\<open>temp\<close> is still a super-key.
  \<^verbatim>\<open>skey\<close> is passed by pointer and its cursor moves, so the function hands it back next to
  the key it returns.
\<close>

function ckey_loop :: "Queue \<Rightarrow> 8 word \<Rightarrow> 8 word \<Rightarrow> Set \<Rightarrow> Set \<Rightarrow> error + (Set \<times> Set)" where
  "ckey_loop q n_attribs i skey ckey =
     (if i < s_size skey then
        (case Set_next_pos skey of (attrib, skey') \<Rightarrow>
           (case Set_remove (Set_copy ckey) attrib of
              Inl e \<Rightarrow> Inl e
            | Inr temp \<Rightarrow>
                (case is_superkey temp q n_attribs of
                   Inl e \<Rightarrow> Inl e
                 | Inr True \<Rightarrow> ckey_loop q n_attribs (i + 1) skey' (Set_copy temp)
                 | Inr False \<Rightarrow> ckey_loop q n_attribs (i + 1) skey' ckey)))
      else Inr (ckey, skey))"
  by pat_completeness auto
termination
  by (relation "measure (\<lambda>(q, n, i, skey, ckey). unat (s_size skey) - unat i)")
     (auto simp: next_pos_measure)

declare ckey_loop.simps [simp del]

definition candidate_key_from_super_key :: "Set \<Rightarrow> Queue \<Rightarrow> 8 word \<Rightarrow> error + (Set \<times> Set)" where
  "candidate_key_from_super_key skey q n_attribs = ckey_loop q n_attribs 0 skey (Set_copy skey)"

text \<open>
  A super-key: the closure that \<^verbatim>\<open>compute_closure\<close> returns is the full universe, the set
  that \<^verbatim>\<open>Set_full\<close> builds.  \<open>sk_set\<close> says the same of a set of positions: every closed
  superset holds all \<open>n\<close> attributes.
\<close>

definition superkey :: "Queue \<Rightarrow> 8 word \<Rightarrow> Set \<Rightarrow> bool" where
  "superkey q n s =
     (case compute_closure s q n of
        Inl e \<Rightarrow> False
      | Inr c \<Rightarrow> (case Set_full n of Inl e \<Rightarrow> False | Inr u \<Rightarrow> s_set c = s_set u))"

definition sk_set :: "Queue \<Rightarrow> nat \<Rightarrow> nat set \<Rightarrow> bool" where
  "sk_set q n A \<longleftrightarrow> (\<forall>D. A \<subseteq> D \<and> closed_set q D \<longrightarrow> {..<n} \<subseteq> D)"

lemma sk_set_mono: "sk_set q n A \<Longrightarrow> A \<subseteq> B \<Longrightarrow> sk_set q n B"
  unfolding sk_set_def by blast

lemma Set_full_attrs: "Set_full n = Inr u \<Longrightarrow> attrs u = {..<unat n}"
  by (auto simp: Set_full_def attrs_def full_mask MAX_ATTRIBS_def bit_mask_iff
      split: if_splits dest: bit_imp_le_length)

lemma Set_full_total: "unat n \<le> MAX_ATTRIBS \<Longrightarrow> \<exists>u. Set_full n = Inr u"
  by (simp add: Set_full_def)

lemma attrs_eq_iff: "attrs s = attrs t \<longleftrightarrow> s_set s = s_set t"
proof
  assume "attrs s = attrs t"
  then have "\<And>i. bit (s_set s) i = bit (s_set t) i" by (auto simp: attrs_def)
  then show "s_set s = s_set t" by (intro bit_eqI)
qed (simp add: attrs_def)

lemma superkey_iff:
  assumes "unat n \<le> MAX_ATTRIBS" "deps_in_range (unat n) q" "in_range (unat n) s"
  shows "superkey q n s \<longleftrightarrow> sk_set q (unat n) (attrs s)"
proof -
  from closure_props[OF assms] obtain c where
    cb: "closure_loop q n (Set_copy s) = Inr c" and sc: "attrs s \<subseteq> attrs c"
    and cl: "closed_set q (attrs c)"
    and low: "\<forall>D. attrs s \<subseteq> D \<and> closed_set q D \<longrightarrow> attrs c \<subseteq> D"
    and r: "in_range (unat n) c"
    by blast
  from Set_full_total[OF assms(1)] obtain u where u: "Set_full n = Inr u" by blast
  have c: "compute_closure s q n = Inr c" using cb by (simp add: compute_closure_def)
  have "superkey q n s \<longleftrightarrow> attrs c = {..<unat n}"
    using c u Set_full_attrs[OF u] by (simp add: superkey_def flip: attrs_eq_iff)
  also have "\<dots> \<longleftrightarrow> sk_set q (unat n) (attrs s)"
  proof
    assume "attrs c = {..<unat n}"
    then show "sk_set q (unat n) (attrs s)" using low by (auto simp: sk_set_def)
  next
    assume "sk_set q (unat n) (attrs s)"
    then have "{..<unat n} \<subseteq> attrs c" using sc cl by (simp add: sk_set_def)
    then show "attrs c = {..<unat n}" using r by (auto simp: in_range_iff)
  qed
  finally show ?thesis .
qed

lemma is_superkey_correct:
  assumes "unat n \<le> MAX_ATTRIBS" "deps_in_range (unat n) q" "in_range (unat n) s"
    and "size_ok s" "attrs s \<noteq> {..<unat n}"
  shows "is_superkey s q n = Inr (superkey q n s)"
proof -
  from closure_props[OF assms(1-3)] obtain c where
    cb: "closure_loop q n (Set_copy s) = Inr c" and r: "in_range (unat n) c"
    by blast
  from Set_full_total[OF assms(1)] obtain u where u: "Set_full n = Inr u" by blast
  have nf: "s_size s \<noteq> n"
    using size_full_attrs[OF assms(4,3)] assms(5) by blast
  have c: "compute_closure s q n = Inr c" using cb by (simp add: compute_closure_def)
  have "size_ok (Set_copy s)" using assms(4) by (rule size_ok_copy)
  then have "size_ok c" using closure_loop_shape[OF cb] by auto
  then have "Set_is_full c n = Inr (s_set c = s_set u)"
    using full_iff[OF _ assms(1) r] u by (auto simp: Set_full_def split: if_splits)
  then show ?thesis
    using is_superkey_not_full[OF assms(1) nf, of q] c u by (simp add: superkey_def)
qed

lemma attrs_copy: "attrs (Set_copy s) = attrs s"
  by (simp add: attrs_def Set_copy_def)

lemma attrs_remove: "Set_remove s i = Inr s' \<Longrightarrow> attrs s' = attrs s - {unat i}"
  by (auto simp: Set_remove_def attrs_def bit_xor_iff bit_exp_iff bit_test_iff bit_test_iff0 MAX_ATTRIBS_def
      split: if_splits dest: bit_imp_le_length)

lemma Set_remove_ok:
  "unat i < MAX_ATTRIBS \<Longrightarrow> unat i \<in> attrs s \<Longrightarrow> s_cursor s = 0 \<Longrightarrow> \<exists>s'. Set_remove s i = Inr s'"
  by (simp add: Set_remove_def attrs_def bit_test_iff0)

lemma Set_remove_frame:
  "Set_remove s i = Inr s' \<Longrightarrow> s_cursor s' = s_cursor s \<and> s_count s' = s_count s"
  by (auto simp: Set_remove_def split: if_splits)

lemma next_pos_step:
  assumes "filter (bit (s_set s)) [unat (s_cursor s)..<26] = p # rest"
    and "unat (s_count s) + length (p # rest) = unat (s_size s)"
  shows "\<exists>s1. Set_next_pos s = (of_nat p, s1) \<and> p < 26 \<and> bit (s_set s) p \<and> p \<notin> set rest \<and>
           s_set s1 = s_set s \<and> s_size s1 = s_size s \<and>
           (rest \<noteq> [] \<longrightarrow> filter (bit (s_set s1)) [unat (s_cursor s1)..<26] = rest \<and>
                          unat (s_count s1) + length rest = unat (s_size s1)) \<and>
           (rest = [] \<longrightarrow> s_cursor s1 = 0 \<and> s_count s1 = 0)"
proof -
  from filter_upt_Cons[OF assms(1)]
  have p: "unat (s_cursor s) \<le> p" "p < 26" "bit (s_set s) p"
    "\<forall>j. unat (s_cursor s) \<le> j \<and> j < p \<longrightarrow> \<not> bit (s_set s) j"
    "filter (bit (s_set s)) [Suc p..<26] = rest"
    by auto
  define q :: "8 word" where "q = of_nat p"
  have uq: "unat q = p" using p(2) by (simp add: q_def unat_of_nat)
  have step: "Set_next_pos s = (q, hit s q)"
    unfolding Set_next_pos_def using p uq by (intro scan_finds) auto
  have cnt: "unat (s_count s + 1) = unat (s_count s) + 1"
    using assms(2) unat_lt256[of "s_size s"] by (simp add: unat_word_ariths)
  have "s_count s + 1 = s_size s \<longleftrightarrow> unat (s_count s) + 1 = unat (s_size s)"
    using cnt by (simp add: word_unat_eq_iff)
  also have "\<dots> \<longleftrightarrow> length rest = 0"
  proof -
    have "unat (s_count s) + Suc (length rest) = unat (s_size s)"
      using assms(2) by simp
    then show ?thesis by arith
  qed
  finally have full: "s_count s + 1 = s_size s \<longleftrightarrow> rest = []"
    by simp
  have uq1: "unat (q + 1) = Suc p" using uq p(2) unat_succ_lt26[of q] by simp
  have notin: "p \<notin> set rest"
  proof
    assume "p \<in> set rest"
    then have "p \<in> set [Suc p..<26]" using p(5) by (metis filter_is_subset subsetD)
    then show False by simp
  qed
  have a: "rest \<noteq> [] \<longrightarrow> filter (bit (s_set (hit s q))) [unat (s_cursor (hit s q))..<26] = rest \<and>
                          unat (s_count (hit s q)) + length rest = unat (s_size (hit s q))"
    using full p(5) uq1 cnt assms(2) by (simp add: hit_def Let_def)
  have b: "rest = [] \<longrightarrow> s_cursor (hit s q) = 0 \<and> s_count (hit s q) = 0"
    using full by (simp add: hit_def Let_def)
  have c: "s_set (hit s q) = s_set s \<and> s_size (hit s q) = s_size s"
    by (simp add: hit_def Let_def)
  show ?thesis
    using step p(2,3) notin a b c unfolding q_def by blast
qed

lemma ckey_loop_inv:
  assumes "unat n \<le> MAX_ATTRIBS" and "deps_in_range (unat n) q"
    and "ms \<noteq> [] \<longrightarrow> filter (bit (s_set skey)) [unat (s_cursor skey)..<26] = ms \<and>
                       unat (s_count skey) + length ms = unat (s_size skey)"
    and "unat i + length ms = unat (s_size skey)"
    and "size_ok ckey" and "in_range (unat n) ckey"
    and "s_cursor ckey = 0 \<and> s_count ckey = 0"
    and "set ms \<subseteq> attrs ckey"
    and "sk_set q (unat n) (attrs ckey)"
    and "\<forall>a \<in> attrs ckey - set ms. \<not> sk_set q (unat n) (attrs ckey - {a})"
  shows "\<exists>ck sk'. ckey_loop q n i skey ckey = Inr (ck, sk') \<and>
           attrs ck \<subseteq> attrs ckey \<and> sk_set q (unat n) (attrs ck) \<and>
           (\<forall>a \<in> attrs ck. \<not> sk_set q (unat n) (attrs ck - {a})) \<and>
           size_ok ck \<and> s_cursor ck = 0 \<and> s_count ck = 0 \<and>
           s_set sk' = s_set skey \<and> s_size sk' = s_size skey \<and>
           (ms \<noteq> [] \<longrightarrow> s_cursor sk' = 0 \<and> s_count sk' = 0)"
  using assms(3-)
proof (induction ms arbitrary: skey i ckey)
  case Nil
  then have "\<not> i < s_size skey" by (simp add: word_less_nat_alt)
  then have "ckey_loop q n i skey ckey = Inr (ckey, skey)"
    by (simp add: ckey_loop.simps[of q n i skey ckey])
  with Nil show ?case by simp
next
  case (Cons p rest)
  note v1 = assms(1) and v2 = assms(2)
  have e1: "filter (bit (s_set skey)) [unat (s_cursor skey)..<26] = p # rest"
    and e2: "unat (s_count skey) + length (p # rest) = unat (s_size skey)"
    using Cons.prems(1) by simp_all
  from next_pos_step[OF e1 e2] obtain skey1 where
    step: "Set_next_pos skey = (of_nat p, skey1)" and p26: "p < 26" and pb: "bit (s_set skey) p"
    and pr: "p \<notin> set rest" and fr: "s_set skey1 = s_set skey" "s_size skey1 = s_size skey"
    and en: "rest \<noteq> [] \<longrightarrow> filter (bit (s_set skey1)) [unat (s_cursor skey1)..<26] = rest \<and>
                          unat (s_count skey1) + length rest = unat (s_size skey1)"
    and rs: "rest = [] \<longrightarrow> s_cursor skey1 = 0 \<and> s_count skey1 = 0"
    by blast
  define a :: "8 word" where "a = of_nat p"
  have ua: "unat a = p" using p26 by (simp add: a_def unat_of_nat)
  have lt: "i < s_size skey" using Cons.prems(2) by (simp add: word_less_nat_alt)
  have i1: "unat (i + 1) + length rest = unat (s_size skey1)"
    using unat_succ_below[OF lt] Cons.prems(2) fr by simp
  have pin: "p \<in> attrs ckey" using Cons.prems(6) by simp
  have pn: "p < unat n" using pin Cons.prems(4) by (auto simp: in_range_iff)
  have "\<exists>t. Set_remove (Set_copy ckey) a = Inr t"
  proof (rule Set_remove_ok)
    show "unat a < MAX_ATTRIBS" using p26 ua by (simp add: MAX_ATTRIBS_def)
    show "unat a \<in> attrs (Set_copy ckey)" using pin ua by (simp add: attrs_copy)
    show "s_cursor (Set_copy ckey) = 0" by (simp add: Set_copy_def)
  qed
  then obtain temp where temp: "Set_remove (Set_copy ckey) a = Inr temp" by blast
  have at: "attrs temp = attrs ckey - {p}"
    using attrs_remove[OF temp] ua by (simp add: attrs_copy)
  have st: "size_ok temp"
    using size_ok_remove[OF size_ok_copy[OF Cons.prems(3)] temp] .
  have rt: "in_range (unat n) temp"
    using Cons.prems(4) at by (auto simp: in_range_iff)
  have ct: "s_cursor temp = 0 \<and> s_count temp = 0"
    using Set_remove_frame[OF temp] by (simp add: Set_copy_def)
  have "attrs temp \<noteq> {..<unat n}" using at pn by auto
  from is_superkey_correct[OF v1 v2 rt st this]
  have isk: "is_superkey temp q n = Inr (sk_set q (unat n) (attrs temp))"
    using superkey_iff[OF v1 v2 rt] by simp
  show ?case
  proof (cases "sk_set q (unat n) (attrs temp)")
    case True
    have unfold: "ckey_loop q n i skey ckey = ckey_loop q n (i + 1) skey1 (Set_copy temp)"
      using lt step temp isk True unfolding a_def
      by (simp add: ckey_loop.simps[of q n i skey ckey])
    have k4: "\<forall>b \<in> attrs (Set_copy temp) - set rest.
                \<not> sk_set q (unat n) (attrs (Set_copy temp) - {b})"
    proof
      fix b assume b: "b \<in> attrs (Set_copy temp) - set rest"
      then have "b \<in> attrs ckey - set (p # rest)" using at by (auto simp: attrs_copy)
      then have n: "\<not> sk_set q (unat n) (attrs ckey - {b})" using Cons.prems(8) by blast
      have "attrs (Set_copy temp) - {b} \<subseteq> attrs ckey - {b}" using at by (auto simp: attrs_copy)
      with n sk_set_mono show "\<not> sk_set q (unat n) (attrs (Set_copy temp) - {b})" by blast
    qed
    have "\<exists>ck sk'. ckey_loop q n (i + 1) skey1 (Set_copy temp) = Inr (ck, sk') \<and>
           attrs ck \<subseteq> attrs (Set_copy temp) \<and> sk_set q (unat n) (attrs ck) \<and>
           (\<forall>a \<in> attrs ck. \<not> sk_set q (unat n) (attrs ck - {a})) \<and>
           size_ok ck \<and> s_cursor ck = 0 \<and> s_count ck = 0 \<and>
           s_set sk' = s_set skey1 \<and> s_size sk' = s_size skey1 \<and>
           (rest \<noteq> [] \<longrightarrow> s_cursor sk' = 0 \<and> s_count sk' = 0)"
    proof (rule Cons.IH[OF en i1 _ _ _ _ _ k4])
      show "size_ok (Set_copy temp)" using st by (rule size_ok_copy)
      show "in_range (unat n) (Set_copy temp)" using rt by (simp add: in_range_iff attrs_copy)
      show "s_cursor (Set_copy temp) = 0 \<and> s_count (Set_copy temp) = 0" by (simp add: Set_copy_def)
      show "set rest \<subseteq> attrs (Set_copy temp)"
        using Cons.prems(6) pr at by (auto simp: attrs_copy)
      show "sk_set q (unat n) (attrs (Set_copy temp))" using True by (simp add: attrs_copy)
    qed
    then obtain ck sk' where r: "ckey_loop q n (i + 1) skey1 (Set_copy temp) = Inr (ck, sk')"
      "attrs ck \<subseteq> attrs (Set_copy temp)" "sk_set q (unat n) (attrs ck)"
      "\<forall>a \<in> attrs ck. \<not> sk_set q (unat n) (attrs ck - {a})"
      "size_ok ck \<and> s_cursor ck = 0 \<and> s_count ck = 0"
      "s_set sk' = s_set skey1 \<and> s_size sk' = s_size skey1"
      "rest \<noteq> [] \<longrightarrow> s_cursor sk' = 0 \<and> s_count sk' = 0"
      by blast
    have fin: "rest = [] \<longrightarrow> sk' = skey1"
    proof
      assume "rest = []"
      then have "\<not> i + 1 < s_size skey1" using i1 by (simp add: word_less_nat_alt)
      then show "sk' = skey1" using r(1)
        by (simp add: ckey_loop.simps[of q n "i + 1" skey1 "Set_copy temp"])
    qed
    have "attrs ck \<subseteq> attrs ckey" using r(2) at by (auto simp: attrs_copy)
    moreover have "s_cursor sk' = 0 \<and> s_count sk' = 0" using r(7) fin rs by blast
    ultimately show ?thesis using unfold r fr by auto
  next
    case False
    have unfold: "ckey_loop q n i skey ckey = ckey_loop q n (i + 1) skey1 ckey"
      using lt step temp isk False unfolding a_def
      by (simp add: ckey_loop.simps[of q n i skey ckey])
    have k4: "\<forall>b \<in> attrs ckey - set rest. \<not> sk_set q (unat n) (attrs ckey - {b})"
    proof
      fix b assume b: "b \<in> attrs ckey - set rest"
      show "\<not> sk_set q (unat n) (attrs ckey - {b})"
      proof (cases "b = p")
        case True
        with False at show ?thesis by simp
      next
        case False
        with b have "b \<in> attrs ckey - set (p # rest)" by simp
        then show ?thesis using Cons.prems(8) by blast
      qed
    qed
    have k2: "set rest \<subseteq> attrs ckey" using Cons.prems(6) by simp
    from Cons.IH[OF en i1 Cons.prems(3,4,5) k2 Cons.prems(7) k4]
    obtain ck sk' where r: "ckey_loop q n (i + 1) skey1 ckey = Inr (ck, sk')"
      "attrs ck \<subseteq> attrs ckey" "sk_set q (unat n) (attrs ck)"
      "\<forall>a \<in> attrs ck. \<not> sk_set q (unat n) (attrs ck - {a})"
      "size_ok ck \<and> s_cursor ck = 0 \<and> s_count ck = 0"
      "s_set sk' = s_set skey1 \<and> s_size sk' = s_size skey1"
      "rest \<noteq> [] \<longrightarrow> s_cursor sk' = 0 \<and> s_count sk' = 0"
      by blast
    have fin: "rest = [] \<longrightarrow> sk' = skey1"
    proof
      assume "rest = []"
      then have "\<not> i + 1 < s_size skey1" using i1 by (simp add: word_less_nat_alt)
      then show "sk' = skey1" using r(1)
        by (simp add: ckey_loop.simps[of q n "i + 1" skey1 ckey])
    qed
    have "s_cursor sk' = 0 \<and> s_count sk' = 0" using r(7) fin rs by blast
    then show ?thesis using unfold r fr by auto
  qed
qed

lemma members_state:
  assumes "size_ok s" "in_range (unat n) s" "unat n \<le> MAX_ATTRIBS" "s_cursor s = 0" "s_count s = 0"
  shows "filter (bit (s_set s)) [unat (s_cursor s)..<26] = members s"
    and "unat (s_count s) + length (members s) = unat (s_size s)"
    and "set (members s) = attrs s"
proof -
  have r: "in_range MAX_ATTRIBS s" using assms(2,3) by (auto simp: in_range_iff)
  show "filter (bit (s_set s)) [unat (s_cursor s)..<26] = members s"
    using assms(4) by (simp add: members_def MAX_ATTRIBS_def)
  show "unat (s_count s) + length (members s) = unat (s_size s)"
    using members_length[OF assms(1) r] assms(5) by simp
  show "set (members s) = attrs s" using r by (rule members_set)
qed

lemma candidate_key_sets:
  assumes "unat n \<le> MAX_ATTRIBS" "deps_in_range (unat n) q"
    and "size_ok skey" "in_range (unat n) skey" "s_cursor skey = 0" "s_count skey = 0"
    and "sk_set q (unat n) (attrs skey)"
  shows "\<exists>ckey. candidate_key_from_super_key skey q n = Inr (ckey, skey) \<and>
           attrs ckey \<subseteq> attrs skey \<and> sk_set q (unat n) (attrs ckey) \<and>
           (\<forall>a \<in> attrs ckey. \<not> sk_set q (unat n) (attrs ckey - {a})) \<and>
           size_ok ckey \<and> s_cursor ckey = 0 \<and> s_count ckey = 0"
proof -
  note m = members_state[OF assms(3,4,1,5,6)]
  have "\<exists>ck sk'. ckey_loop q n 0 skey (Set_copy skey) = Inr (ck, sk') \<and>
           attrs ck \<subseteq> attrs (Set_copy skey) \<and> sk_set q (unat n) (attrs ck) \<and>
           (\<forall>a \<in> attrs ck. \<not> sk_set q (unat n) (attrs ck - {a})) \<and>
           size_ok ck \<and> s_cursor ck = 0 \<and> s_count ck = 0 \<and>
           s_set sk' = s_set skey \<and> s_size sk' = s_size skey \<and>
           (members skey \<noteq> [] \<longrightarrow> s_cursor sk' = 0 \<and> s_count sk' = 0)"
  proof (rule ckey_loop_inv[OF assms(1,2)])
    show "members skey \<noteq> [] \<longrightarrow>
      filter (bit (s_set skey)) [unat (s_cursor skey)..<26] = members skey \<and>
      unat (s_count skey) + length (members skey) = unat (s_size skey)"
      using m by simp
    show "unat (0 :: 8 word) + length (members skey) = unat (s_size skey)"
      using m(2) assms(6) by simp
    show "size_ok (Set_copy skey)" using assms(3) by (rule size_ok_copy)
    show "in_range (unat n) (Set_copy skey)" using assms(4) by (simp add: in_range_iff attrs_copy)
    show "s_cursor (Set_copy skey) = 0 \<and> s_count (Set_copy skey) = 0" by (simp add: Set_copy_def)
    show "set (members skey) \<subseteq> attrs (Set_copy skey)" using m(3) by (simp add: attrs_copy)
    show "sk_set q (unat n) (attrs (Set_copy skey))" using assms(7) by (simp add: attrs_copy)
    show "\<forall>a\<in>attrs (Set_copy skey) - set (members skey).
       \<not> sk_set q (unat n) (attrs (Set_copy skey) - {a})"
      using m(3) by (simp add: attrs_copy)
  qed
  then obtain ck sk' where r: "ckey_loop q n 0 skey (Set_copy skey) = Inr (ck, sk')"
    "attrs ck \<subseteq> attrs (Set_copy skey)" "sk_set q (unat n) (attrs ck)"
    "\<forall>a \<in> attrs ck. \<not> sk_set q (unat n) (attrs ck - {a})"
    "size_ok ck \<and> s_cursor ck = 0 \<and> s_count ck = 0"
    "s_set sk' = s_set skey \<and> s_size sk' = s_size skey"
    "members skey \<noteq> [] \<longrightarrow> s_cursor sk' = 0 \<and> s_count sk' = 0"
    by blast
  have "sk' = skey"
  proof (cases "members skey = []")
    case True
    then have "\<not> 0 < s_size skey" using m(2) assms(6) by (simp add: word_less_nat_alt)
    then show ?thesis using r(1) by (simp add: ckey_loop.simps[of q n 0 skey "Set_copy skey"])
  next
    case False
    then show ?thesis using r(6,7) assms(5,6) by simp
  qed
  then show ?thesis using r by (auto simp: candidate_key_from_super_key_def attrs_copy)
qed

lemma minimal_no_proper_subset:
  assumes "\<forall>a \<in> A. \<not> sk_set q n (A - {a})" "B \<subset> A"
  shows "\<not> sk_set q n B"
proof -
  from assms(2) obtain a where "a \<in> A" "a \<notin> B" by blast
  then have "B \<subseteq> A - {a}" using assms(2) by blast
  with assms(1) \<open>a \<in> A\<close> sk_set_mono show ?thesis by blast
qed

text \<open>
  C3.  For at most \<^verbatim>\<open>MAX_ATTRIBS\<close> attributes, dependencies below \<open>n\<close>, and a super-key
  below \<open>n\<close> as the callers build it (size field right, cursor and count 0),
  \<^verbatim>\<open>candidate_key_from_super_key\<close> returns a key that is contained in the super-key, is
  still a super-key, and is minimal: removing any one of its attributes gives a set that is
  not a super-key, and so no proper subset of it is a super-key.  The super-key passed in is
  handed back as it was.
\<close>

theorem candidate_key_is_minimal:
  assumes "unat n \<le> MAX_ATTRIBS" "deps_in_range (unat n) q"
    and "size_ok skey" "in_range (unat n) skey" "s_cursor skey = 0" "s_count skey = 0"
    and "superkey q n skey"
  shows "\<exists>ckey. candidate_key_from_super_key skey q n = Inr (ckey, skey) \<and>
           Set_contains skey ckey \<and> superkey q n ckey \<and>
           (\<forall>a. bit (s_set ckey) (unat a) \<longrightarrow>
                (\<exists>t. Set_remove ckey a = Inr t \<and> \<not> superkey q n t)) \<and>
           (\<forall>t. Set_contains ckey t \<and> s_set t \<noteq> s_set ckey \<longrightarrow> \<not> superkey q n t)"
proof -
  have "sk_set q (unat n) (attrs skey)"
    using assms(7) superkey_iff[OF assms(1,2,4)] by simp
  from candidate_key_sets[OF assms(1-6) this] obtain ckey where
    r: "candidate_key_from_super_key skey q n = Inr (ckey, skey)"
    "attrs ckey \<subseteq> attrs skey" "sk_set q (unat n) (attrs ckey)"
    "\<forall>a \<in> attrs ckey. \<not> sk_set q (unat n) (attrs ckey - {a})"
    "size_ok ckey \<and> s_cursor ckey = 0 \<and> s_count ckey = 0"
    by blast
  have rk: "in_range (unat n) ckey" using r(2) assms(4) by (auto simp: in_range_iff)
  have 1: "superkey q n ckey" using r(3) superkey_iff[OF assms(1,2) rk] by simp
  have 2: "\<exists>t. Set_remove ckey a = Inr t \<and> \<not> superkey q n t" if "bit (s_set ckey) (unat a)" for a
  proof -
    have ain: "unat a \<in> attrs ckey" using that by (simp add: attrs_def)
    then have "unat a < unat n" using rk by (auto simp: in_range_iff)
    then have "unat a < MAX_ATTRIBS" using assms(1) by simp
    from Set_remove_ok[OF this ain] r(5) obtain t where t: "Set_remove ckey a = Inr t" by blast
    have at: "attrs t = attrs ckey - {unat a}" using t by (rule attrs_remove)
    then have "in_range (unat n) t" using rk by (auto simp: in_range_iff)
    from superkey_iff[OF assms(1,2) this] at r(4) ain have "\<not> superkey q n t" by simp
    with t show ?thesis by blast
  qed
  have 3: "\<not> superkey q n t" if "Set_contains ckey t" "s_set t \<noteq> s_set ckey" for t
  proof -
    have "attrs t \<subset> attrs ckey" using that by (auto simp: contains_iff attrs_eq_iff)
    then have "\<not> sk_set q (unat n) (attrs t)" using r(4) minimal_no_proper_subset by blast
    moreover have "in_range (unat n) t"
      using that(1) rk by (auto simp: contains_iff in_range_iff)
    ultimately show ?thesis using superkey_iff[OF assms(1,2)] by simp
  qed
  show ?thesis using r(1,2) 1 2 3 by (auto simp: contains_iff)
qed

theorem candidate_key_is_minimal_witness:
  "unat (3 :: 8 word) \<le> MAX_ATTRIBS \<and>
   deps_in_range (unat (3 :: 8 word))
     [\<lparr>lhs = \<lparr>s_set = 1, s_size = 1, s_cursor = 0, s_count = 0\<rparr>,
        rhs = \<lparr>s_set = 2, s_size = 1, s_cursor = 0, s_count = 0\<rparr>\<rparr>,
      \<lparr>lhs = \<lparr>s_set = 2, s_size = 1, s_cursor = 0, s_count = 0\<rparr>,
        rhs = \<lparr>s_set = 4, s_size = 1, s_cursor = 0, s_count = 0\<rparr>\<rparr>] \<and>
   superkey
     [\<lparr>lhs = \<lparr>s_set = 1, s_size = 1, s_cursor = 0, s_count = 0\<rparr>,
        rhs = \<lparr>s_set = 2, s_size = 1, s_cursor = 0, s_count = 0\<rparr>\<rparr>,
      \<lparr>lhs = \<lparr>s_set = 2, s_size = 1, s_cursor = 0, s_count = 0\<rparr>,
        rhs = \<lparr>s_set = 4, s_size = 1, s_cursor = 0, s_count = 0\<rparr>\<rparr>] 3
     \<lparr>s_set = 7, s_size = 3, s_cursor = 0, s_count = 0\<rparr> \<and>
   candidate_key_from_super_key \<lparr>s_set = 7, s_size = 3, s_cursor = 0, s_count = 0\<rparr>
     [\<lparr>lhs = \<lparr>s_set = 1, s_size = 1, s_cursor = 0, s_count = 0\<rparr>,
        rhs = \<lparr>s_set = 2, s_size = 1, s_cursor = 0, s_count = 0\<rparr>\<rparr>,
      \<lparr>lhs = \<lparr>s_set = 2, s_size = 1, s_cursor = 0, s_count = 0\<rparr>,
        rhs = \<lparr>s_set = 4, s_size = 1, s_cursor = 0, s_count = 0\<rparr>\<rparr>] 3
     = Inr (\<lparr>s_set = 1, s_size = 1, s_cursor = 0, s_count = 0\<rparr>,
            \<lparr>s_set = 7, s_size = 3, s_cursor = 0, s_count = 0\<rparr>) \<and>
   superkey
     [\<lparr>lhs = \<lparr>s_set = 1, s_size = 1, s_cursor = 0, s_count = 0\<rparr>,
        rhs = \<lparr>s_set = 2, s_size = 1, s_cursor = 0, s_count = 0\<rparr>\<rparr>,
      \<lparr>lhs = \<lparr>s_set = 2, s_size = 1, s_cursor = 0, s_count = 0\<rparr>,
        rhs = \<lparr>s_set = 4, s_size = 1, s_cursor = 0, s_count = 0\<rparr>\<rparr>] 3
     \<lparr>s_set = 1, s_size = 1, s_cursor = 0, s_count = 0\<rparr> \<and>
   \<not> superkey
     [\<lparr>lhs = \<lparr>s_set = 1, s_size = 1, s_cursor = 0, s_count = 0\<rparr>,
        rhs = \<lparr>s_set = 2, s_size = 1, s_cursor = 0, s_count = 0\<rparr>\<rparr>,
      \<lparr>lhs = \<lparr>s_set = 2, s_size = 1, s_cursor = 0, s_count = 0\<rparr>,
        rhs = \<lparr>s_set = 4, s_size = 1, s_cursor = 0, s_count = 0\<rparr>\<rparr>] 3
     \<lparr>s_set = 0, s_size = 0, s_cursor = 0, s_count = 0\<rparr>"
proof -
  let ?q = "[\<lparr>lhs = \<lparr>s_set = 1, s_size = 1, s_cursor = 0, s_count = 0\<rparr>,
        rhs = \<lparr>s_set = 2, s_size = 1, s_cursor = 0, s_count = 0\<rparr>\<rparr>,
      \<lparr>lhs = \<lparr>s_set = 2, s_size = 1, s_cursor = 0, s_count = 0\<rparr>,
        rhs = \<lparr>s_set = 4, s_size = 1, s_cursor = 0, s_count = 0\<rparr>\<rparr>]"
  let ?s = "\<lparr>s_set = 7, s_size = 3, s_cursor = 0, s_count = 0\<rparr>"
  let ?k = "\<lparr>s_set = 1, s_size = 1, s_cursor = 0, s_count = 0\<rparr>"
  let ?e = "\<lparr>s_set = 0, s_size = 0, s_cursor = 0, s_count = 0\<rparr>"
  have h1: "unat (3 :: 8 word) \<le> MAX_ATTRIBS" by code_simp
  have h2: "deps_in_range (unat (3 :: 8 word)) ?q" by code_simp
  have h3: "size_ok ?s" by code_simp
  have h4: "in_range (unat (3 :: 8 word)) ?s" by code_simp
  have h5: "s_cursor ?s = 0" "s_count ?s = 0" by simp_all
  have h6: "superkey ?q 3 ?s" by code_simp
  have v: "candidate_key_from_super_key ?s ?q 3 = Inr (?k, ?s)" by code_simp
  have c: "Set_contains ?k ?e \<and> s_set ?e \<noteq> s_set ?k" by code_simp
  from candidate_key_is_minimal[OF h1 h2 h3 h4 h5 h6] v
  have "superkey ?q 3 ?k" and "\<forall>t. Set_contains ?k t \<and> s_set t \<noteq> s_set ?k \<longrightarrow> \<not> superkey ?q 3 t"
    by auto
  with c have "superkey ?q 3 ?k \<and> \<not> superkey ?q 3 ?e" by blast
  with h1 h2 h6 v show ?thesis by blast
qed

section \<open>Enumeration of all candidate keys (func_dep.c)\<close>

text \<open>
  \<^verbatim>\<open>print_all_candidate_keys\<close> keeps two queues, \<^verbatim>\<open>ckeys\<close> (the keys found) and \<^verbatim>\<open>work\<close>
  (the keys still to be expanded), and prints every key it finds; \<open>printed\<close> collects the
  printed lines, each the list of positions \<^verbatim>\<open>Set_print\<close> writes.
\<close>

record search =
  ckeys :: Queue
  work :: Queue
  printed :: "8 word list list"

text \<open>
  The innermost loop over \<^verbatim>\<open>ckeys\<close>: \<^verbatim>\<open>test\<close> stays 1 unless \<^verbatim>\<open>S\<close> contains a key
  already found.
\<close>

fun inclusion_test :: "Set \<Rightarrow> Queue \<Rightarrow> bool" where
  "inclusion_test S [] = True"
| "inclusion_test S (key # ckey_iter) =
     (if Set_contains S (lhs key) then False else inclusion_test S ckey_iter)"

text \<open>
  The loop over the dependencies for the key popped from \<^verbatim>\<open>work\<close>: \<^verbatim>\<open>S\<close> is the left side
  united with the key minus the right side; when the test passes, \<^verbatim>\<open>S\<close> is reduced to a
  candidate key, which is appended to both queues and printed.
\<close>

fun fd_iter :: "Queue \<Rightarrow> Queue \<Rightarrow> 8 word \<Rightarrow> q_key_t \<Rightarrow> search \<Rightarrow> error + search" where
  "fd_iter [] q n_attribs key st = Inr st"
| "fd_iter (fd # iter) q n_attribs key st =
     (let diff = Set_difference (lhs key) (rhs fd);
          S = Set_union (lhs fd) diff
      in if inclusion_test S (ckeys st) then
           (case candidate_key_from_super_key S q n_attribs of
              Inl e \<Rightarrow> Inl e
            | Inr (ckey, S') \<Rightarrow>
                (let qkey = \<lparr>lhs = ckey, rhs = \<lparr>s_set = 0, s_size = 0, s_cursor = 0, s_count = 0\<rparr>\<rparr>
                 in case Set_print ckey of (line, ckey') \<Rightarrow>
                      fd_iter iter q n_attribs key
                        \<lparr>ckeys = Q_insert (ckeys st) qkey, work = Q_insert (work st) qkey,
                         printed = printed st @ [line]\<rparr>))
         else fd_iter iter q n_attribs key st)"

text \<open>One iteration of \<^verbatim>\<open>while (work.size != 0)\<close>: pop a key and run the loop over the
  dependencies.\<close>

definition work_iter :: "Queue \<Rightarrow> 8 word \<Rightarrow> search \<Rightarrow> error + search" where
  "work_iter q n_attribs st =
     (case Q_pop (work st) of
        Inl e \<Rightarrow> Inl e
      | Inr (key, rest) \<Rightarrow> fd_iter q q n_attribs key (st\<lparr>work := rest\<rparr>))"

text \<open>The bit masks of the keys of a queue.\<close>

definition found_masks :: "Queue \<Rightarrow> 32 word set" where
  "found_masks ks = (\<lambda>k. s_set (lhs k)) ` set ks"

lemma ckey_loop_subset:
  "ckey_loop q n i skey ckey = Inr (ck, sk') \<Longrightarrow> attrs ck \<subseteq> attrs ckey"
proof (induction q n i skey ckey rule: ckey_loop.induct)
  case (1 q n i skey ckey)
  show ?case
  proof (cases "i < s_size skey")
    case False
    with "1.prems" show ?thesis by (simp add: ckey_loop.simps[of q n i skey ckey])
  next
    case True
    obtain attrib skey1 where np: "Set_next_pos skey = (attrib, skey1)" by (cases "Set_next_pos skey")
    show ?thesis
    proof (cases "Set_remove (Set_copy ckey) attrib")
      case (Inl e)
      with True np "1.prems" show ?thesis by (simp add: ckey_loop.simps[of q n i skey ckey])
    next
      case (Inr temp)
      have at: "attrs temp \<subseteq> attrs ckey" using attrs_remove[OF Inr] by (auto simp: attrs_copy)
      show ?thesis
      proof (cases "is_superkey temp q n")
        case (Inl e)
        with True np Inr "1.prems" show ?thesis by (simp add: ckey_loop.simps[of q n i skey ckey])
      next
        case isk: (Inr b)
        show ?thesis
        proof (cases b)
          case True
          with \<open>i < s_size skey\<close> np Inr isk "1.prems"
          have "ckey_loop q n (i + 1) skey1 (Set_copy temp) = Inr (ck, sk')"
            by (simp add: ckey_loop.simps[of q n i skey ckey])
          moreover have "b = True" using True by simp
          ultimately have "attrs ck \<subseteq> attrs (Set_copy temp)"
            using "1.IH"(1)[OF \<open>i < s_size skey\<close> np[symmetric] Inr isk] by blast
          with at show ?thesis by (auto simp: attrs_copy)
        next
          case False
          with \<open>i < s_size skey\<close> np Inr isk "1.prems"
          have "ckey_loop q n (i + 1) skey1 ckey = Inr (ck, sk')"
            by (simp add: ckey_loop.simps[of q n i skey ckey])
          moreover have "b = False" using False by simp
          ultimately show ?thesis
            using "1.IH"(2)[OF \<open>i < s_size skey\<close> np[symmetric] Inr isk] by blast
        qed
      qed
    qed
  qed
qed

lemma candidate_key_subset:
  "candidate_key_from_super_key skey q n = Inr (ck, sk') \<Longrightarrow> attrs ck \<subseteq> attrs skey"
  unfolding candidate_key_from_super_key_def
  using ckey_loop_subset[of q n 0 skey "Set_copy skey" ck sk'] by (simp add: attrs_copy)

lemma inclusion_test_iff:
  "inclusion_test S ks \<longleftrightarrow> (\<forall>k \<in> set ks. \<not> attrs (lhs k) \<subseteq> attrs S)"
  by (induction ks) (auto simp: contains_iff)

lemma new_mask:
  assumes "inclusion_test S ks" "attrs ck \<subseteq> attrs S"
  shows "s_set ck \<notin> found_masks ks"
proof
  assume "s_set ck \<in> found_masks ks"
  then obtain k where k: "k \<in> set ks" "s_set (lhs k) = s_set ck" by (auto simp: found_masks_def)
  then have "attrs (lhs k) = attrs ck" by (simp add: attrs_eq_iff)
  with assms k(1) show False by (auto simp: inclusion_test_iff)
qed

lemma found_masks_insert:
  "found_masks (Q_insert ks k) = insert (s_set (lhs k)) (found_masks ks)"
  by (auto simp: found_masks_def Q_insert_def)

lemma fd_iter_progress:
  "fd_iter iter q n key st = Inr st' \<Longrightarrow>
     found_masks (ckeys st) \<subseteq> found_masks (ckeys st') \<and>
     ((ckeys st' = ckeys st \<and> work st' = work st) \<or> found_masks (ckeys st) \<subset> found_masks (ckeys st'))"
proof (induction iter arbitrary: st)
  case Nil
  then show ?case by simp
next
  case (Cons fd iter)
  let ?S = "Set_union (lhs fd) (Set_difference (lhs key) (rhs fd))"
  show ?case
  proof (cases "inclusion_test ?S (ckeys st)")
    case False
    with Cons.prems have "fd_iter iter q n key st = Inr st'" by (simp add: Let_def)
    then show ?thesis by (rule Cons.IH)
  next
    case True
    show ?thesis
    proof (cases "candidate_key_from_super_key ?S q n")
      case (Inl e)
      with True Cons.prems show ?thesis by (simp add: Let_def)
    next
      case (Inr r)
      obtain ckey S' where r: "r = (ckey, S')" by (cases r)
      obtain line ckey' where pr: "Set_print ckey = (line, ckey')" by (cases "Set_print ckey")
      let ?qkey = "\<lparr>lhs = ckey, rhs = \<lparr>s_set = 0, s_size = 0, s_cursor = 0, s_count = 0\<rparr>\<rparr>"
      let ?st1 = "\<lparr>ckeys = Q_insert (ckeys st) ?qkey, work = Q_insert (work st) ?qkey,
                   printed = printed st @ [line]\<rparr>"
      from True Inr r pr Cons.prems have "fd_iter iter q n key ?st1 = Inr st'"
        by (simp add: Let_def)
      from Cons.IH[OF this] have sub: "found_masks (ckeys ?st1) \<subseteq> found_masks (ckeys st')"
        by blast
      have "attrs ckey \<subseteq> attrs ?S" using Inr r candidate_key_subset by blast
      with True have "s_set ckey \<notin> found_masks (ckeys st)" by (rule new_mask)
      then have "found_masks (ckeys st) \<subset> found_masks (ckeys ?st1)"
        by (auto simp: found_masks_insert)
      with sub show ?thesis by auto
    qed
  qed
qed

lemma work_iter_progress:
  assumes "work_iter q n st = Inr st'"
  shows "found_masks (ckeys st) \<subset> found_masks (ckeys st') \<or>
         (found_masks (ckeys st') = found_masks (ckeys st) \<and> length (work st') < length (work st))"
proof -
  from assms obtain key rest where w: "work st = key # rest"
    and f: "fd_iter q q n key (st\<lparr>work := rest\<rparr>) = Inr st'"
    by (auto simp: work_iter_def Q_pop_def split: list.splits)
  from fd_iter_progress[OF f] w show ?thesis by auto
qed

text \<open>
  The work loop.  Every key appended to \<^verbatim>\<open>ckeys\<close> has a bit mask that no earlier key has,
  and there are finitely many masks; an iteration that appends nothing shortens \<^verbatim>\<open>work\<close>.
\<close>

function work_loop :: "Queue \<Rightarrow> 8 word \<Rightarrow> search \<Rightarrow> error + search" where
  "work_loop q n_attribs st =
     (if work st \<noteq> [] then
        (case work_iter q n_attribs st of
           Inl e \<Rightarrow> Inl e
         | Inr st' \<Rightarrow> work_loop q n_attribs st')
      else Inr st)"
  by pat_completeness auto
termination
proof (relation "inv_image (finite_psubset <*lex*> measure length)
                   (\<lambda>(q, n, st). (UNIV - found_masks (ckeys st), work st))", goal_cases)
  case 1
  show ?case by (intro wf_inv_image wf_lex_prod wf_finite_psubset wf_measure)
next
  case (2 q n st st')
  from work_iter_progress[OF 2(2)] show ?case
  proof
    assume "found_masks (ckeys st) \<subset> found_masks (ckeys st')"
    then have "UNIV - found_masks (ckeys st') \<subset> UNIV - found_masks (ckeys st)" by blast
    then show ?thesis by (simp add: finite_psubset_def)
  next
    assume "found_masks (ckeys st') = found_masks (ckeys st) \<and> length (work st') < length (work st)"
    then show ?thesis by simp
  qed
qed

declare work_loop.simps [simp del]

text \<open>
  What the function leaves behind: the queue \<^verbatim>\<open>ckeys\<close> as it is just before \<^verbatim>\<open>Q_free\<close>, the
  lines printed, and the number printed by
  \<^verbatim>\<open>printf("Number of candidate keys: %u\\n", ckeys.size)\<close>.
\<close>

record report =
  keys_found :: Queue
  keys_printed :: "8 word list list"
  number_printed :: "32 word"

text \<open>The start: the full set is reduced to a first key, which is printed and put into both
  queues.\<close>

definition seed :: "Queue \<Rightarrow> 8 word \<Rightarrow> error + search" where
  "seed q n_attribs =
     (case Set_full n_attribs of
        Inl e \<Rightarrow> Inl e
      | Inr attribs \<Rightarrow>
          (case candidate_key_from_super_key attribs q n_attribs of
             Inl e \<Rightarrow> Inl e
           | Inr (ckey, attribs') \<Rightarrow>
               (case Set_print ckey of (line, ckey') \<Rightarrow>
                  (let qkey = \<lparr>lhs = ckey', rhs = \<lparr>s_set = 0, s_size = 0, s_cursor = 0, s_count = 0\<rparr>\<rparr>
                   in Inr \<lparr>ckeys = Q_insert Q_init qkey, work = Q_insert Q_init qkey,
                           printed = [line]\<rparr>))))"

definition print_all_candidate_keys :: "Queue \<Rightarrow> 8 word \<Rightarrow> error + report" where
  "print_all_candidate_keys q n_attribs =
     (case seed q n_attribs of
        Inl e \<Rightarrow> Inl e
      | Inr st0 \<Rightarrow>
          (case work_loop q n_attribs st0 of
             Inl e \<Rightarrow> Inl e
           | Inr st \<Rightarrow>
               Inr \<lparr>keys_found = ckeys st, keys_printed = printed st,
                    number_printed = of_nat (length (ckeys st))\<rparr>))"

text \<open>The states of the search after the start and after every iteration of the work loop.\<close>

inductive reached :: "Queue \<Rightarrow> 8 word \<Rightarrow> search \<Rightarrow> bool" for q n_attribs where
  start: "seed q n_attribs = Inr st \<Longrightarrow> reached q n_attribs st"
| step: "reached q n_attribs st \<Longrightarrow> work st \<noteq> [] \<Longrightarrow> work_iter q n_attribs st = Inr st' \<Longrightarrow>
         reached q n_attribs st'"

text \<open>No key of the queue contains another one (a key at a different index).\<close>

definition antichain :: "Queue \<Rightarrow> bool" where
  "antichain ks \<longleftrightarrow>
     (\<forall>i < length ks. \<forall>j < length ks. i \<noteq> j \<longrightarrow> \<not> Set_contains (lhs (ks ! i)) (lhs (ks ! j)))"

text \<open>
  Notions for the invariant of the search: a well-formed minimal super-key; a key and a
  dependency whose set \<^verbatim>\<open>S\<close> contains a key of the queue; the line printed for a key.
\<close>

definition candidate :: "Queue \<Rightarrow> 8 word \<Rightarrow> Set \<Rightarrow> bool" where
  "candidate q n k \<longleftrightarrow>
     size_ok k \<and> in_range (unat n) k \<and> s_cursor k = 0 \<and> s_count k = 0 \<and>
     sk_set q (unat n) (attrs k) \<and> (\<forall>a \<in> attrs k. \<not> sk_set q (unat n) (attrs k - {a}))"

definition covered :: "Queue \<Rightarrow> q_key_t \<Rightarrow> q_key_t \<Rightarrow> bool" where
  "covered ks fd k \<longleftrightarrow>
     (\<exists>j \<in> set ks. attrs (lhs j) \<subseteq> attrs (lhs fd) \<union> (attrs (lhs k) - attrs (rhs fd)))"

definition line_of :: "q_key_t \<Rightarrow> 8 word list" where
  "line_of k = map of_nat (members (lhs k))"

definition search_inv :: "Queue \<Rightarrow> 8 word \<Rightarrow> search \<Rightarrow> bool" where
  "search_inv q n st \<longleftrightarrow>
     ckeys st \<noteq> [] \<and>
     (\<forall>k \<in> set (ckeys st). candidate q n (lhs k)) \<and>
     distinct (map (\<lambda>k. s_set (lhs k)) (ckeys st)) \<and>
     set (work st) \<subseteq> set (ckeys st) \<and>
     (\<forall>k \<in> set (ckeys st) - set (work st). \<forall>fd \<in> set q. covered (ckeys st) fd k) \<and>
     printed st = map line_of (ckeys st)"

lemma print_loop_calls:
  "unat i \<le> unat (s_size s) \<Longrightarrow>
   print_loop i s out =
     (out @ fst (next_pos_calls (unat (s_size s) - unat i) s),
      snd (next_pos_calls (unat (s_size s) - unat i) s))"
proof (induction i s out rule: print_loop.induct)
  case (1 i s out)
  show ?case
  proof (cases "i < s_size s")
    case False
    then have "unat (s_size s) - unat i = 0" by (simp add: word_less_nat_alt)
    with False show ?thesis by (simp add: print_loop.simps[of i s out])
  next
    case True
    obtain pos s' where np: "Set_next_pos s = (pos, s')" by (cases "Set_next_pos s")
    have sz: "s_size s' = s_size s" using Set_next_pos_frame[OF np] by simp
    have u: "unat (i + 1) = unat i + 1" using True by (rule unat_succ_below)
    have lt: "unat i < unat (s_size s)" using True by (simp add: word_less_nat_alt)
    have k: "unat (s_size s) - unat i = Suc (unat (s_size s') - unat (i + 1))"
      using lt u sz by simp
    have "print_loop (i + 1) s' (out @ [pos]) =
      ((out @ [pos]) @ fst (next_pos_calls (unat (s_size s') - unat (i + 1)) s'),
       snd (next_pos_calls (unat (s_size s') - unat (i + 1)) s'))"
      using "1.IH"[OF True np[symmetric]] lt u sz by simp
    then show ?thesis
      using True np unfolding k
      by (simp add: print_loop.simps[of i s out] split_beta)
  qed
qed

lemma Set_print_wf:
  assumes "size_ok s" "in_range 26 s" "s_cursor s = 0" "s_count s = 0"
  shows "Set_print s = (map of_nat (members s), s)"
  using print_loop_calls[of 0 s "[]"] next_pos_calls_all[OF assms]
  by (simp add: Set_print_def)

lemma candidate_print:
  assumes "unat n \<le> MAX_ATTRIBS" "candidate q n k"
  shows "Set_print k = (map of_nat (members k), k)"
proof (rule Set_print_wf)
  show "size_ok k" "s_cursor k = 0" "s_count k = 0" using assms(2) by (simp_all add: candidate_def)
  show "in_range 26 k" using assms by (auto simp: candidate_def in_range_iff MAX_ATTRIBS_def)
qed

lemma sk_set_step:
  assumes "sk_set q n K" "fd \<in> set q"
  shows "sk_set q n (attrs (lhs fd) \<union> (K - attrs (rhs fd)))"
  unfolding sk_set_def
proof (intro allI impI)
  fix D assume d: "attrs (lhs fd) \<union> (K - attrs (rhs fd)) \<subseteq> D \<and> closed_set q D"
  then have "attrs (rhs fd) \<subseteq> D" using assms(2) by (auto simp: closed_set_def)
  with d have "K \<subseteq> D" by blast
  with assms(1) d show "{..<n} \<subseteq> D" by (simp add: sk_set_def)
qed

lemma covered_mono: "covered ks fd k \<Longrightarrow> set ks \<subseteq> set ks' \<Longrightarrow> covered ks' fd k"
  unfolding covered_def by blast

lemma candidate_distinct_masks:
  assumes "candidate q n a" "candidate q n b" "attrs a \<subseteq> attrs b"
  shows "s_set a = s_set b"
proof (rule ccontr)
  assume "s_set a \<noteq> s_set b"
  then have "attrs a \<subset> attrs b" using assms(3) by (auto simp: attrs_eq_iff)
  moreover have "\<forall>x \<in> attrs b. \<not> sk_set q (unat n) (attrs b - {x})"
    using assms(2) by (simp add: candidate_def)
  ultimately have "\<not> sk_set q (unat n) (attrs a)"
    by (rule minimal_no_proper_subset[rotated])
  with assms(1) show False by (simp add: candidate_def)
qed

lemma fd_iter_inv:
  assumes "unat n \<le> MAX_ATTRIBS" "deps_in_range (unat n) q"
    and "set iter \<subseteq> set q"
    and "\<forall>k \<in> set (ckeys st). candidate q n (lhs k)"
    and "distinct (map (\<lambda>k. s_set (lhs k)) (ckeys st))"
    and "candidate q n (lhs key)"
    and "printed st = map line_of (ckeys st)"
  shows "\<exists>st' new. fd_iter iter q n key st = Inr st' \<and>
           ckeys st' = ckeys st @ new \<and> work st' = work st @ new \<and>
           (\<forall>k \<in> set (ckeys st'). candidate q n (lhs k)) \<and>
           distinct (map (\<lambda>k. s_set (lhs k)) (ckeys st')) \<and>
           (\<forall>fd \<in> set iter. covered (ckeys st') fd key) \<and>
           printed st' = map line_of (ckeys st')"
  using assms(3-5,7)
proof (induction iter arbitrary: st)
  case Nil
  then show ?case by simp
next
  case (Cons fd iter)
  note v1 = assms(1) and v2 = assms(2) and key = assms(6)
  let ?S = "Set_union (lhs fd) (Set_difference (lhs key) (rhs fd))"
  have aS: "attrs ?S = attrs (lhs fd) \<union> (attrs (lhs key) - attrs (rhs fd))"
    by (simp add: attrs_union attrs_difference)
  have fdq: "fd \<in> set q" and sub: "set iter \<subseteq> set q" using Cons.prems(1) by simp_all
  show ?case
  proof (cases "inclusion_test ?S (ckeys st)")
    case False
    then have cov: "covered (ckeys st) fd key"
      by (auto simp: inclusion_test_iff covered_def aS)
    from Cons.IH[OF sub Cons.prems(2,3,4)] obtain st' new where
      r: "fd_iter iter q n key st = Inr st'" "ckeys st' = ckeys st @ new"
      "work st' = work st @ new" "\<forall>k \<in> set (ckeys st'). candidate q n (lhs k)"
      "distinct (map (\<lambda>k. s_set (lhs k)) (ckeys st'))"
      "\<forall>fd \<in> set iter. covered (ckeys st') fd key" "printed st' = map line_of (ckeys st')"
      by blast
    have "covered (ckeys st') fd key" using cov r(2) by (auto intro: covered_mono)
    moreover have "fd_iter (fd # iter) q n key st = Inr st'" using False r(1) by (simp add: Let_def)
    ultimately show ?thesis using r by auto
  next
    case True
    have kr: "in_range (unat n) (lhs key)" and ksk: "sk_set q (unat n) (attrs (lhs key))"
      using key by (simp_all add: candidate_def)
    have s1: "size_ok ?S" by (rule size_ok_union)
    have s2: "in_range (unat n) ?S"
      using kr v2 fdq by (auto simp: in_range_iff aS deps_in_range_def)
    have s3: "s_cursor ?S = 0" "s_count ?S = 0" by (simp_all add: Set_union_def Let_def)
    have s4: "sk_set q (unat n) (attrs ?S)"
      unfolding aS using ksk fdq by (rule sk_set_step)
    from candidate_key_sets[OF v1 v2 s1 s2 s3 s4] obtain ckey where
      ck: "candidate_key_from_super_key ?S q n = Inr (ckey, ?S)"
      "attrs ckey \<subseteq> attrs ?S" "sk_set q (unat n) (attrs ckey)"
      "\<forall>a \<in> attrs ckey. \<not> sk_set q (unat n) (attrs ckey - {a})"
      "size_ok ckey \<and> s_cursor ckey = 0 \<and> s_count ckey = 0"
      by blast
    have cand: "candidate q n ckey"
      using ck(2-5) s2 by (auto simp: candidate_def in_range_iff)
    have pr: "Set_print ckey = (map of_nat (members ckey), ckey)"
      using v1 cand by (rule candidate_print)
    let ?qkey = "\<lparr>lhs = ckey, rhs = \<lparr>s_set = 0, s_size = 0, s_cursor = 0, s_count = 0\<rparr>\<rparr>"
    let ?st1 = "\<lparr>ckeys = Q_insert (ckeys st) ?qkey, work = Q_insert (work st) ?qkey,
                 printed = printed st @ [map of_nat (members ckey)]\<rparr>"
    have unfold: "fd_iter (fd # iter) q n key st = fd_iter iter q n key ?st1"
      using True ck(1) pr by (simp add: Let_def)
    have nm: "s_set ckey \<notin> found_masks (ckeys st)" using True ck(2) by (rule new_mask)
    have p2: "\<forall>k \<in> set (ckeys ?st1). candidate q n (lhs k)"
      using Cons.prems(2) cand by (auto simp: Q_insert_def)
    have p3: "distinct (map (\<lambda>k. s_set (lhs k)) (ckeys ?st1))"
      using Cons.prems(3) nm by (auto simp: Q_insert_def found_masks_def)
    have p4: "printed ?st1 = map line_of (ckeys ?st1)"
      using Cons.prems(4) by (simp add: Q_insert_def line_of_def)
    from Cons.IH[OF sub p2 p3 p4] obtain st' new where
      r: "fd_iter iter q n key ?st1 = Inr st'" "ckeys st' = ckeys ?st1 @ new"
      "work st' = work ?st1 @ new" "\<forall>k \<in> set (ckeys st'). candidate q n (lhs k)"
      "distinct (map (\<lambda>k. s_set (lhs k)) (ckeys st'))"
      "\<forall>fd \<in> set iter. covered (ckeys st') fd key" "printed st' = map line_of (ckeys st')"
      by blast
    have "?qkey \<in> set (ckeys st')" using r(2) by (simp add: Q_insert_def)
    then have "covered (ckeys st') fd key"
      using ck(2) unfolding covered_def aS by (intro bexI[of _ ?qkey]) simp_all
    moreover have "ckeys st' = ckeys st @ (?qkey # new)" "work st' = work st @ (?qkey # new)"
      using r(2,3) by (simp_all add: Q_insert_def)
    ultimately show ?thesis using unfold r(1,4,5,6,7) by auto
  qed
qed

lemma work_iter_inv:
  assumes "unat n \<le> MAX_ATTRIBS" "deps_in_range (unat n) q"
    and "search_inv q n st" "work st \<noteq> []"
  shows "\<exists>st'. work_iter q n st = Inr st' \<and> search_inv q n st'"
proof -
  from assms(4) obtain key rest where w: "work st = key # rest" by (cases "work st") auto
  have inv: "ckeys st \<noteq> []" "\<forall>k \<in> set (ckeys st). candidate q n (lhs k)"
    "distinct (map (\<lambda>k. s_set (lhs k)) (ckeys st))" "set (work st) \<subseteq> set (ckeys st)"
    "\<forall>k \<in> set (ckeys st) - set (work st). \<forall>fd \<in> set q. covered (ckeys st) fd k"
    "printed st = map line_of (ckeys st)"
    using assms(3) by (simp_all add: search_inv_def)
  have key: "candidate q n (lhs key)" using inv(2,4) w by auto
  let ?st0 = "st\<lparr>work := rest\<rparr>"
  have "\<exists>st' new. fd_iter q q n key ?st0 = Inr st' \<and>
           ckeys st' = ckeys ?st0 @ new \<and> work st' = work ?st0 @ new \<and>
           (\<forall>k \<in> set (ckeys st'). candidate q n (lhs k)) \<and>
           distinct (map (\<lambda>k. s_set (lhs k)) (ckeys st')) \<and>
           (\<forall>fd \<in> set q. covered (ckeys st') fd key) \<and>
           printed st' = map line_of (ckeys st')"
    using inv by (intro fd_iter_inv[OF assms(1,2) _ _ _ key]) simp_all
  then obtain st' new where
    r: "fd_iter q q n key ?st0 = Inr st'" "ckeys st' = ckeys st @ new"
    "work st' = rest @ new" "\<forall>k \<in> set (ckeys st'). candidate q n (lhs k)"
    "distinct (map (\<lambda>k. s_set (lhs k)) (ckeys st'))"
    "\<forall>fd \<in> set q. covered (ckeys st') fd key" "printed st' = map line_of (ckeys st')"
    by auto
  have wi: "work_iter q n st = Inr st'" using w r(1) by (simp add: work_iter_def Q_pop_def)
  have c1: "ckeys st' \<noteq> []" using inv(1) r(2) by simp
  have c4: "set (work st') \<subseteq> set (ckeys st')" using inv(4) w r(2,3) by auto
  have c5: "\<forall>k \<in> set (ckeys st') - set (work st'). \<forall>fd \<in> set q. covered (ckeys st') fd k"
  proof (intro ballI)
    fix k fd assume k: "k \<in> set (ckeys st') - set (work st')" and fd: "fd \<in> set q"
    then have kin: "k \<in> set (ckeys st)" and kr: "k \<notin> set rest" using r(2,3) by auto
    show "covered (ckeys st') fd k"
    proof (cases "k = key")
      case True
      with r(6) fd show ?thesis by simp
    next
      case False
      with kin kr w have "k \<in> set (ckeys st) - set (work st)" by simp
      with inv(5) fd have "covered (ckeys st) fd k" by blast
      then show ?thesis using r(2) by (auto intro: covered_mono)
    qed
  qed
  show ?thesis using wi c1 r(4,5,7) c4 c5 by (auto simp: search_inv_def)
qed

lemma work_loop_inv:
  "unat n \<le> MAX_ATTRIBS \<Longrightarrow> deps_in_range (unat n) q \<Longrightarrow> search_inv q n st \<Longrightarrow>
     \<exists>st'. work_loop q n st = Inr st' \<and> search_inv q n st' \<and> work st' = []"
proof (induction q n st rule: work_loop.induct)
  case (1 q n st)
  show ?case
  proof (cases "work st = []")
    case True
    with "1.prems" show ?thesis by (simp add: work_loop.simps[of q n st])
  next
    case False
    from work_iter_inv[OF "1.prems"(1,2,3) False] obtain st1 where
      s: "work_iter q n st = Inr st1" "search_inv q n st1" by blast
    from "1.IH"[OF False s(1) "1.prems"(1,2) s(2)] obtain st' where
      "work_loop q n st1 = Inr st'" "search_inv q n st'" "work st' = []" by blast
    with False s(1) show ?thesis by (simp add: work_loop.simps[of q n st])
  qed
qed

lemma seed_inv:
  assumes "unat n \<le> MAX_ATTRIBS" "deps_in_range (unat n) q"
  shows "\<exists>st. seed q n = Inr st \<and> search_inv q n st"
proof -
  from Set_full_total[OF assms(1)] obtain attribs where a: "Set_full n = Inr attribs" by blast
  have a1: "size_ok attribs" using a by (rule size_ok_full)
  have a2: "attrs attribs = {..<unat n}" using a by (rule Set_full_attrs)
  have a3: "in_range (unat n) attribs" using a2 by (simp add: in_range_iff)
  have a4: "s_cursor attribs = 0" "s_count attribs = 0"
    using a by (auto simp: Set_full_def split: if_splits)
  have a5: "sk_set q (unat n) (attrs attribs)" unfolding a2 by (simp add: sk_set_def)
  from candidate_key_sets[OF assms a1 a3 a4 a5] obtain ckey where
    ck: "candidate_key_from_super_key attribs q n = Inr (ckey, attribs)"
    "attrs ckey \<subseteq> attrs attribs" "sk_set q (unat n) (attrs ckey)"
    "\<forall>a \<in> attrs ckey. \<not> sk_set q (unat n) (attrs ckey - {a})"
    "size_ok ckey \<and> s_cursor ckey = 0 \<and> s_count ckey = 0"
    by blast
  have cand: "candidate q n ckey"
    using ck(2-5) a3 by (auto simp: candidate_def in_range_iff)
  have pr: "Set_print ckey = (map of_nat (members ckey), ckey)"
    using assms(1) cand by (rule candidate_print)
  let ?qkey = "\<lparr>lhs = ckey, rhs = \<lparr>s_set = 0, s_size = 0, s_cursor = 0, s_count = 0\<rparr>\<rparr>"
  let ?st = "\<lparr>ckeys = [?qkey], work = [?qkey], printed = [map of_nat (members ckey)]\<rparr>"
  have "seed q n = Inr ?st"
    using a ck(1) pr by (simp add: seed_def Q_insert_def Q_init_def Let_def)
  moreover have "search_inv q n ?st"
    using cand by (simp add: search_inv_def line_of_def)
  ultimately show ?thesis by blast
qed

lemma reached_inv:
  assumes "unat n \<le> MAX_ATTRIBS" "deps_in_range (unat n) q"
  shows "reached q n st \<Longrightarrow> search_inv q n st"
proof (induction rule: reached.induct)
  case (start st)
  with seed_inv[OF assms] show ?case by auto
next
  case (step st st')
  with work_iter_inv[OF assms step.IH step.hyps(2)] show ?case by auto
qed

lemma search_complete:
  assumes "deps_in_range n q" "ks \<noteq> []"
    and "\<forall>k \<in> set ks. attrs (lhs k) \<subseteq> {..<n}"
    and "\<forall>k \<in> set ks. \<forall>fd \<in> set q. covered ks fd k"
  shows "T \<subseteq> {..<n} \<Longrightarrow> sk_set q n T \<Longrightarrow> \<exists>k \<in> set ks. attrs (lhs k) \<subseteq> T"
proof (induction "card ({..<n} - T)" arbitrary: T rule: less_induct)
  case less
  show ?case
  proof (cases "closed_set q T")
    case True
    with less.prems have "T = {..<n}" by (auto simp: sk_set_def)
    moreover obtain k where "k \<in> set ks" using assms(2) by (cases ks) auto
    ultimately show ?thesis using assms(3) by blast
  next
    case False
    then obtain fd where fd: "fd \<in> set q" "attrs (lhs fd) \<subseteq> T" "\<not> attrs (rhs fd) \<subseteq> T"
      by (auto simp: closed_set_def)
    let ?T = "T \<union> attrs (rhs fd)"
    have r: "attrs (rhs fd) \<subseteq> {..<n}"
      using assms(1) fd(1) by (auto simp: deps_in_range_def in_range_iff)
    have t1: "?T \<subseteq> {..<n}" using less.prems(1) r by simp
    have t2: "sk_set q n ?T" using less.prems(2) by (rule sk_set_mono) simp
    have "{..<n} - ?T \<subset> {..<n} - T" using fd(3) r by blast
    then have "card ({..<n} - ?T) < card ({..<n} - T)" by (intro psubset_card_mono) simp_all
    from less.hyps[OF this t1 t2] obtain k where k: "k \<in> set ks" "attrs (lhs k) \<subseteq> ?T" by blast
    from assms(4) k(1) fd(1) have "covered ks fd k" by blast
    then obtain j where "j \<in> set ks" "attrs (lhs j) \<subseteq> attrs (lhs fd) \<union> (attrs (lhs k) - attrs (rhs fd))"
      by (auto simp: covered_def)
    with k(2) fd(2) show ?thesis by blast
  qed
qed

lemma candidates_antichain:
  assumes "\<forall>k \<in> set ks. candidate q n (lhs k)" "distinct (map (\<lambda>k. s_set (lhs k)) ks)"
  shows "antichain ks"
  unfolding antichain_def
proof (intro allI impI notI)
  fix i j assume ij: "i < length ks" "j < length ks" "i \<noteq> j"
    and c: "Set_contains (lhs (ks ! i)) (lhs (ks ! j))"
  have ci: "candidate q n (lhs (ks ! i))" and cj: "candidate q n (lhs (ks ! j))"
    using assms(1) ij by simp_all
  have "attrs (lhs (ks ! j)) \<subseteq> attrs (lhs (ks ! i))" using c by (simp add: contains_iff)
  with cj ci have "s_set (lhs (ks ! j)) = s_set (lhs (ks ! i))"
    by (rule candidate_distinct_masks)
  then have "map (\<lambda>k. s_set (lhs k)) ks ! j = map (\<lambda>k. s_set (lhs k)) ks ! i" using ij by simp
  moreover have "j < length (map (\<lambda>k. s_set (lhs k)) ks)" "i < length (map (\<lambda>k. s_set (lhs k)) ks)"
    using ij by simp_all
  ultimately have "j = i" using assms(2) nth_eq_iff_index_eq by blast
  with ij show False by simp
qed

lemma masks_bound:
  assumes "\<forall>k \<in> set ks. in_range n (lhs k)" "distinct (map (\<lambda>k. s_set (lhs k)) ks)"
  shows "length ks \<le> 2 ^ n"
proof -
  let ?A = "(\<lambda>k. attrs (lhs k)) ` set ks"
  have inj: "inj_on (\<lambda>k. attrs (lhs k)) (set ks)"
  proof (rule inj_onI)
    fix a b assume ab: "a \<in> set ks" "b \<in> set ks" "attrs (lhs a) = attrs (lhs b)"
    then have "s_set (lhs a) = s_set (lhs b)" by (simp add: attrs_eq_iff)
    with assms(2) ab(1,2) show "a = b" by (auto simp: distinct_map dest: inj_onD)
  qed
  have "distinct ks" using assms(2) by (simp add: distinct_map)
  then have "length ks = card (set ks)" by (simp add: distinct_card)
  also have "\<dots> = card ?A" using inj by (simp add: card_image)
  also have "\<dots> \<le> card (Pow {..<n})"
    using assms(1) by (intro card_mono) (auto simp: in_range_iff)
  also have "\<dots> = 2 ^ n" by (simp add: card_Pow)
  finally show ?thesis .
qed

lemma fd_iter_new:
  "fd_iter iter q n key st = Inr st' \<Longrightarrow>
     \<exists>new. ckeys st' = ckeys st @ new \<and> work st' = work st @ new \<and>
           distinct (map (\<lambda>k. s_set (lhs k)) new) \<and>
           found_masks new \<inter> found_masks (ckeys st) = {}"
proof (induction iter arbitrary: st)
  case Nil
  then show ?case by (simp add: found_masks_def)
next
  case (Cons fd iter)
  let ?S = "Set_union (lhs fd) (Set_difference (lhs key) (rhs fd))"
  show ?case
  proof (cases "inclusion_test ?S (ckeys st)")
    case False
    with Cons.prems have "fd_iter iter q n key st = Inr st'" by (simp add: Let_def)
    then show ?thesis by (rule Cons.IH)
  next
    case True
    show ?thesis
    proof (cases "candidate_key_from_super_key ?S q n")
      case (Inl e)
      with True Cons.prems show ?thesis by (simp add: Let_def)
    next
      case (Inr r)
      obtain ckey S' where r: "r = (ckey, S')" by (cases r)
      obtain line ckey' where pr: "Set_print ckey = (line, ckey')" by (cases "Set_print ckey")
      let ?qkey = "\<lparr>lhs = ckey, rhs = \<lparr>s_set = 0, s_size = 0, s_cursor = 0, s_count = 0\<rparr>\<rparr>"
      let ?st1 = "\<lparr>ckeys = Q_insert (ckeys st) ?qkey, work = Q_insert (work st) ?qkey,
                   printed = printed st @ [line]\<rparr>"
      from True Inr r pr Cons.prems have "fd_iter iter q n key ?st1 = Inr st'"
        by (simp add: Let_def)
      from Cons.IH[OF this] obtain new where
        n: "ckeys st' = ckeys ?st1 @ new" "work st' = work ?st1 @ new"
        "distinct (map (\<lambda>k. s_set (lhs k)) new)"
        "found_masks new \<inter> found_masks (ckeys ?st1) = {}"
        by blast
      have "attrs ckey \<subseteq> attrs ?S" using Inr r candidate_key_subset by blast
      with True have nm: "s_set ckey \<notin> found_masks (ckeys st)" by (rule new_mask)
      have 1: "ckeys st' = ckeys st @ (?qkey # new)" "work st' = work st @ (?qkey # new)"
        using n(1,2) by (simp_all add: Q_insert_def)
      have 2: "distinct (map (\<lambda>k. s_set (lhs k)) (?qkey # new))"
        using n(3,4) by (auto simp: found_masks_def Q_insert_def)
      have 3: "found_masks (?qkey # new) \<inter> found_masks (ckeys st) = {}"
        using n(4) nm by (auto simp: found_masks_def Q_insert_def)
      from 1 2 3 show ?thesis by blast
    qed
  qed
qed

lemma work_iter_new:
  assumes "work_iter q n st = Inr st'"
  shows "\<exists>new. ckeys st' = ckeys st @ new \<and>
           distinct (map (\<lambda>k. s_set (lhs k)) new) \<and>
           found_masks new \<inter> found_masks (ckeys st) = {}"
proof -
  from assms obtain key rest where
    f: "fd_iter q q n key (st\<lparr>work := rest\<rparr>) = Inr st'"
    by (auto simp: work_iter_def Q_pop_def split: list.splits)
  from fd_iter_new[OF f] show ?thesis by auto
qed

lemma enumeration_result:
  assumes "unat n \<le> MAX_ATTRIBS" "deps_in_range (unat n) q"
  shows "\<exists>st. print_all_candidate_keys q n =
           Inr \<lparr>keys_found = ckeys st, keys_printed = printed st,
                number_printed = of_nat (length (ckeys st))\<rparr> \<and>
         search_inv q n st \<and> work st = []"
proof -
  from seed_inv[OF assms] obtain st0 where s: "seed q n = Inr st0" "search_inv q n st0" by blast
  from work_loop_inv[OF assms s(2)] obtain st where
    w: "work_loop q n st0 = Inr st" "search_inv q n st" "work st = []" by blast
  with s(1) show ?thesis by (auto simp: print_all_candidate_keys_def)
qed

subsection \<open>Completeness\<close>

text \<open>
  C1.  For at most \<^verbatim>\<open>MAX_ATTRIBS\<close> attributes and dependencies whose attributes are all
  below \<open>n\<close>, \<^verbatim>\<open>print_all_candidate_keys\<close> returns, and every super-key \<open>T\<close> inside the
  universe contains one of the keys found.  Every key found is a super-key, the lines
  printed are the keys found, in order, and the number printed is their count.
\<close>

theorem enumeration_complete:
  assumes "unat n \<le> MAX_ATTRIBS" "deps_in_range (unat n) q"
  shows "\<exists>r. print_all_candidate_keys q n = Inr r \<and>
           (\<forall>T. in_range (unat n) T \<and> superkey q n T \<longrightarrow>
                (\<exists>k \<in> set (keys_found r). Set_contains T (lhs k))) \<and>
           (\<forall>k \<in> set (keys_found r). superkey q n (lhs k)) \<and>
           keys_printed r = map line_of (keys_found r) \<and>
           number_printed r = of_nat (length (keys_found r))"
proof -
  from enumeration_result[OF assms] obtain st where
    r: "print_all_candidate_keys q n =
           Inr \<lparr>keys_found = ckeys st, keys_printed = printed st,
                number_printed = of_nat (length (ckeys st))\<rparr>"
    and inv: "search_inv q n st" and w: "work st = []" by blast
  have i1: "ckeys st \<noteq> []" and i2: "\<forall>k \<in> set (ckeys st). candidate q n (lhs k)"
    and i5: "\<forall>k \<in> set (ckeys st) - set (work st). \<forall>fd \<in> set q. covered (ckeys st) fd k"
    and i6: "printed st = map line_of (ckeys st)"
    using inv by (simp_all add: search_inv_def)
  have rng: "\<forall>k \<in> set (ckeys st). attrs (lhs k) \<subseteq> {..<unat n}"
    using i2 by (auto simp: candidate_def in_range_iff)
  have cov: "\<forall>k \<in> set (ckeys st). \<forall>fd \<in> set q. covered (ckeys st) fd k"
    using i5 w by simp
  have 1: "\<exists>k \<in> set (ckeys st). Set_contains T (lhs k)"
    if "in_range (unat n) T \<and> superkey q n T" for T
  proof -
    have "sk_set q (unat n) (attrs T)" using that superkey_iff[OF assms] by blast
    moreover have "attrs T \<subseteq> {..<unat n}" using that by (simp add: in_range_iff)
    ultimately show ?thesis
      using search_complete[OF assms(2) i1 rng cov] by (simp add: contains_iff)
  qed
  have 2: "\<forall>k \<in> set (ckeys st). superkey q n (lhs k)"
    using i2 superkey_iff[OF assms] by (auto simp: candidate_def)
  show ?thesis using r 1 2 i6 by auto
qed

theorem enumeration_complete_witness:
  "unat (3 :: 8 word) \<le> MAX_ATTRIBS \<and>
   deps_in_range (unat (3 :: 8 word))
     [\<lparr>lhs = \<lparr>s_set = 1, s_size = 1, s_cursor = 0, s_count = 0\<rparr>,
        rhs = \<lparr>s_set = 2, s_size = 1, s_cursor = 0, s_count = 0\<rparr>\<rparr>,
      \<lparr>lhs = \<lparr>s_set = 2, s_size = 1, s_cursor = 0, s_count = 0\<rparr>,
        rhs = \<lparr>s_set = 4, s_size = 1, s_cursor = 0, s_count = 0\<rparr>\<rparr>,
      \<lparr>lhs = \<lparr>s_set = 4, s_size = 1, s_cursor = 0, s_count = 0\<rparr>,
        rhs = \<lparr>s_set = 1, s_size = 1, s_cursor = 0, s_count = 0\<rparr>\<rparr>] \<and>
   keys_printed (projr (print_all_candidate_keys
     [\<lparr>lhs = \<lparr>s_set = 1, s_size = 1, s_cursor = 0, s_count = 0\<rparr>,
        rhs = \<lparr>s_set = 2, s_size = 1, s_cursor = 0, s_count = 0\<rparr>\<rparr>,
      \<lparr>lhs = \<lparr>s_set = 2, s_size = 1, s_cursor = 0, s_count = 0\<rparr>,
        rhs = \<lparr>s_set = 4, s_size = 1, s_cursor = 0, s_count = 0\<rparr>\<rparr>,
      \<lparr>lhs = \<lparr>s_set = 4, s_size = 1, s_cursor = 0, s_count = 0\<rparr>,
        rhs = \<lparr>s_set = 1, s_size = 1, s_cursor = 0, s_count = 0\<rparr>\<rparr>] 3)) = [[2], [1], [0]] \<and>
   in_range (unat (3 :: 8 word)) \<lparr>s_set = 3, s_size = 2, s_cursor = 0, s_count = 0\<rparr> \<and>
   superkey
     [\<lparr>lhs = \<lparr>s_set = 1, s_size = 1, s_cursor = 0, s_count = 0\<rparr>,
        rhs = \<lparr>s_set = 2, s_size = 1, s_cursor = 0, s_count = 0\<rparr>\<rparr>,
      \<lparr>lhs = \<lparr>s_set = 2, s_size = 1, s_cursor = 0, s_count = 0\<rparr>,
        rhs = \<lparr>s_set = 4, s_size = 1, s_cursor = 0, s_count = 0\<rparr>\<rparr>,
      \<lparr>lhs = \<lparr>s_set = 4, s_size = 1, s_cursor = 0, s_count = 0\<rparr>,
        rhs = \<lparr>s_set = 1, s_size = 1, s_cursor = 0, s_count = 0\<rparr>\<rparr>] 3
     \<lparr>s_set = 3, s_size = 2, s_cursor = 0, s_count = 0\<rparr> \<and>
   (\<exists>k \<in> set (keys_found (projr (print_all_candidate_keys
     [\<lparr>lhs = \<lparr>s_set = 1, s_size = 1, s_cursor = 0, s_count = 0\<rparr>,
        rhs = \<lparr>s_set = 2, s_size = 1, s_cursor = 0, s_count = 0\<rparr>\<rparr>,
      \<lparr>lhs = \<lparr>s_set = 2, s_size = 1, s_cursor = 0, s_count = 0\<rparr>,
        rhs = \<lparr>s_set = 4, s_size = 1, s_cursor = 0, s_count = 0\<rparr>\<rparr>,
      \<lparr>lhs = \<lparr>s_set = 4, s_size = 1, s_cursor = 0, s_count = 0\<rparr>,
        rhs = \<lparr>s_set = 1, s_size = 1, s_cursor = 0, s_count = 0\<rparr>\<rparr>] 3))).
      Set_contains \<lparr>s_set = 3, s_size = 2, s_cursor = 0, s_count = 0\<rparr> (lhs k))"
proof -
  let ?q = "[\<lparr>lhs = \<lparr>s_set = 1, s_size = 1, s_cursor = 0, s_count = 0\<rparr>,
        rhs = \<lparr>s_set = 2, s_size = 1, s_cursor = 0, s_count = 0\<rparr>\<rparr>,
      \<lparr>lhs = \<lparr>s_set = 2, s_size = 1, s_cursor = 0, s_count = 0\<rparr>,
        rhs = \<lparr>s_set = 4, s_size = 1, s_cursor = 0, s_count = 0\<rparr>\<rparr>,
      \<lparr>lhs = \<lparr>s_set = 4, s_size = 1, s_cursor = 0, s_count = 0\<rparr>,
        rhs = \<lparr>s_set = 1, s_size = 1, s_cursor = 0, s_count = 0\<rparr>\<rparr>]"
  let ?T = "\<lparr>s_set = 3, s_size = 2, s_cursor = 0, s_count = 0\<rparr>"
  have h1: "unat (3 :: 8 word) \<le> MAX_ATTRIBS" by code_simp
  have h2: "deps_in_range (unat (3 :: 8 word)) ?q" by code_simp
  have t1: "in_range (unat (3 :: 8 word)) ?T" by code_simp
  have t2: "superkey ?q 3 ?T" by code_simp
  have v: "keys_printed (projr (print_all_candidate_keys ?q 3)) = [[2], [1], [0]]" by code_simp
  from enumeration_complete[OF h1 h2] t1 t2
  have "\<exists>k \<in> set (keys_found (projr (print_all_candidate_keys ?q 3))). Set_contains ?T (lhs k)"
    by auto
  with h1 h2 t1 t2 v show ?thesis by blast
qed

subsection \<open>Antichain\<close>

text \<open>
  C2.  For every such input the keys found have pairwise different bit masks and none
  contains another; the same holds for the queue \<^verbatim>\<open>ckeys\<close> after the start and after every
  iteration of the work loop.
\<close>

theorem enumeration_antichain:
  assumes "unat n \<le> MAX_ATTRIBS" "deps_in_range (unat n) q"
  shows "(\<exists>r. print_all_candidate_keys q n = Inr r \<and> antichain (keys_found r) \<and>
              distinct (map (\<lambda>k. s_set (lhs k)) (keys_found r))) \<and>
         (\<forall>st. reached q n st \<longrightarrow>
              antichain (ckeys st) \<and> distinct (map (\<lambda>k. s_set (lhs k)) (ckeys st)))"
proof -
  have a: "antichain (ckeys st) \<and> distinct (map (\<lambda>k. s_set (lhs k)) (ckeys st))"
    if "search_inv q n st" for st
    using that candidates_antichain[of "ckeys st" q n] by (simp add: search_inv_def)
  from enumeration_result[OF assms] obtain st where
    r: "print_all_candidate_keys q n =
           Inr \<lparr>keys_found = ckeys st, keys_printed = printed st,
                number_printed = of_nat (length (ckeys st))\<rparr>"
    and inv: "search_inv q n st" by blast
  have 1: "\<exists>r. print_all_candidate_keys q n = Inr r \<and> antichain (keys_found r) \<and>
              distinct (map (\<lambda>k. s_set (lhs k)) (keys_found r))"
    using r a[OF inv] by simp
  have 2: "\<forall>st. reached q n st \<longrightarrow>
              antichain (ckeys st) \<and> distinct (map (\<lambda>k. s_set (lhs k)) (ckeys st))"
    using reached_inv[OF assms] a by blast
  from 1 2 show ?thesis by blast
qed

theorem enumeration_antichain_witness:
  "unat (2 :: 8 word) \<le> MAX_ATTRIBS \<and>
   deps_in_range (unat (2 :: 8 word))
     [\<lparr>lhs = \<lparr>s_set = 1, s_size = 1, s_cursor = 0, s_count = 0\<rparr>,
        rhs = \<lparr>s_set = 2, s_size = 1, s_cursor = 0, s_count = 0\<rparr>\<rparr>,
      \<lparr>lhs = \<lparr>s_set = 2, s_size = 1, s_cursor = 0, s_count = 0\<rparr>,
        rhs = \<lparr>s_set = 1, s_size = 1, s_cursor = 0, s_count = 0\<rparr>\<rparr>] \<and>
   print_all_candidate_keys
     [\<lparr>lhs = \<lparr>s_set = 1, s_size = 1, s_cursor = 0, s_count = 0\<rparr>,
        rhs = \<lparr>s_set = 2, s_size = 1, s_cursor = 0, s_count = 0\<rparr>\<rparr>,
      \<lparr>lhs = \<lparr>s_set = 2, s_size = 1, s_cursor = 0, s_count = 0\<rparr>,
        rhs = \<lparr>s_set = 1, s_size = 1, s_cursor = 0, s_count = 0\<rparr>\<rparr>] 2
     = Inr \<lparr>keys_found =
       [\<lparr>lhs = \<lparr>s_set = 2, s_size = 1, s_cursor = 0, s_count = 0\<rparr>,
        rhs = \<lparr>s_set = 0, s_size = 0, s_cursor = 0, s_count = 0\<rparr>\<rparr>,
        \<lparr>lhs = \<lparr>s_set = 1, s_size = 1, s_cursor = 0, s_count = 0\<rparr>,
        rhs = \<lparr>s_set = 0, s_size = 0, s_cursor = 0, s_count = 0\<rparr>\<rparr>],
      keys_printed = [[1], [0]], number_printed = 2\<rparr> \<and>
   antichain
       [\<lparr>lhs = \<lparr>s_set = 2, s_size = 1, s_cursor = 0, s_count = 0\<rparr>,
        rhs = \<lparr>s_set = 0, s_size = 0, s_cursor = 0, s_count = 0\<rparr>\<rparr>,
        \<lparr>lhs = \<lparr>s_set = 1, s_size = 1, s_cursor = 0, s_count = 0\<rparr>,
        rhs = \<lparr>s_set = 0, s_size = 0, s_cursor = 0, s_count = 0\<rparr>\<rparr>] \<and>
   reached
     [\<lparr>lhs = \<lparr>s_set = 1, s_size = 1, s_cursor = 0, s_count = 0\<rparr>,
        rhs = \<lparr>s_set = 2, s_size = 1, s_cursor = 0, s_count = 0\<rparr>\<rparr>,
      \<lparr>lhs = \<lparr>s_set = 2, s_size = 1, s_cursor = 0, s_count = 0\<rparr>,
        rhs = \<lparr>s_set = 1, s_size = 1, s_cursor = 0, s_count = 0\<rparr>\<rparr>] 2
     \<lparr>ckeys = [\<lparr>lhs = \<lparr>s_set = 2, s_size = 1, s_cursor = 0, s_count = 0\<rparr>,
        rhs = \<lparr>s_set = 0, s_size = 0, s_cursor = 0, s_count = 0\<rparr>\<rparr>],
      work = [\<lparr>lhs = \<lparr>s_set = 2, s_size = 1, s_cursor = 0, s_count = 0\<rparr>,
        rhs = \<lparr>s_set = 0, s_size = 0, s_cursor = 0, s_count = 0\<rparr>\<rparr>],
      printed = [[1]]\<rparr> \<and>
   antichain [\<lparr>lhs = \<lparr>s_set = 2, s_size = 1, s_cursor = 0, s_count = 0\<rparr>,
        rhs = \<lparr>s_set = 0, s_size = 0, s_cursor = 0, s_count = 0\<rparr>\<rparr>]"
proof -
  let ?q = "[\<lparr>lhs = \<lparr>s_set = 1, s_size = 1, s_cursor = 0, s_count = 0\<rparr>,
        rhs = \<lparr>s_set = 2, s_size = 1, s_cursor = 0, s_count = 0\<rparr>\<rparr>,
      \<lparr>lhs = \<lparr>s_set = 2, s_size = 1, s_cursor = 0, s_count = 0\<rparr>,
        rhs = \<lparr>s_set = 1, s_size = 1, s_cursor = 0, s_count = 0\<rparr>\<rparr>]"
  let ?r = "\<lparr>keys_found =
       [\<lparr>lhs = \<lparr>s_set = 2, s_size = 1, s_cursor = 0, s_count = 0\<rparr>,
        rhs = \<lparr>s_set = 0, s_size = 0, s_cursor = 0, s_count = 0\<rparr>\<rparr>,
        \<lparr>lhs = \<lparr>s_set = 1, s_size = 1, s_cursor = 0, s_count = 0\<rparr>,
        rhs = \<lparr>s_set = 0, s_size = 0, s_cursor = 0, s_count = 0\<rparr>\<rparr>],
      keys_printed = [[1], [0]], number_printed = 2\<rparr>"
  let ?st = "\<lparr>ckeys = [\<lparr>lhs = \<lparr>s_set = 2, s_size = 1, s_cursor = 0, s_count = 0\<rparr>,
        rhs = \<lparr>s_set = 0, s_size = 0, s_cursor = 0, s_count = 0\<rparr>\<rparr>],
      work = [\<lparr>lhs = \<lparr>s_set = 2, s_size = 1, s_cursor = 0, s_count = 0\<rparr>,
        rhs = \<lparr>s_set = 0, s_size = 0, s_cursor = 0, s_count = 0\<rparr>\<rparr>],
      printed = [[1]]\<rparr>"
  have h1: "unat (2 :: 8 word) \<le> MAX_ATTRIBS" by code_simp
  have h2: "deps_in_range (unat (2 :: 8 word)) ?q" by code_simp
  have v: "print_all_candidate_keys ?q 2 = Inr ?r" by code_simp
  have s: "seed ?q 2 = Inr ?st" by code_simp
  then have re: "reached ?q 2 ?st" by (rule reached.start)
  from enumeration_antichain[OF h1 h2] v re
  have "antichain (keys_found ?r)" and "antichain (ckeys ?st)"
    by auto
  with h1 h2 v re show ?thesis by simp
qed

subsection \<open>Termination\<close>

text \<open>
  C6.  The work loop is defined by well-founded recursion, so it ends on every state.  For
  every valid input the enumeration returns a result (no assertion fails) with at most
  \<open>2 ^ n\<close> keys; in every iteration of the work loop, from any state, the keys appended to
  \<^verbatim>\<open>ckeys\<close> have masks different from each other and from all masks already there; and the
  bound \<open>2 ^ n\<close> holds after every iteration.
\<close>

theorem enumeration_terminates:
  assumes "unat n \<le> MAX_ATTRIBS" "deps_in_range (unat n) q"
  shows "(\<exists>r. print_all_candidate_keys q n = Inr r \<and> length (keys_found r) \<le> 2 ^ unat n) \<and>
         (\<forall>st st'. work_iter q n st = Inr st' \<longrightarrow>
            (\<exists>new. ckeys st' = ckeys st @ new \<and>
                   distinct (map (\<lambda>k. s_set (lhs k)) new) \<and>
                   found_masks new \<inter> found_masks (ckeys st) = {})) \<and>
         (\<forall>st. reached q n st \<longrightarrow> length (ckeys st) \<le> 2 ^ unat n)"
proof -
  have b: "length (ckeys st) \<le> 2 ^ unat n" if "search_inv q n st" for st
  proof (rule masks_bound)
    show "\<forall>k \<in> set (ckeys st). in_range (unat n) (lhs k)"
      using that by (simp add: search_inv_def candidate_def)
    show "distinct (map (\<lambda>k. s_set (lhs k)) (ckeys st))"
      using that by (simp add: search_inv_def)
  qed
  from enumeration_result[OF assms] obtain st where
    r: "print_all_candidate_keys q n =
           Inr \<lparr>keys_found = ckeys st, keys_printed = printed st,
                number_printed = of_nat (length (ckeys st))\<rparr>"
    and inv: "search_inv q n st" by blast
  have 1: "\<exists>r. print_all_candidate_keys q n = Inr r \<and> length (keys_found r) \<le> 2 ^ unat n"
    using r b[OF inv] by simp
  have 2: "\<forall>st st'. work_iter q n st = Inr st' \<longrightarrow>
            (\<exists>new. ckeys st' = ckeys st @ new \<and>
                   distinct (map (\<lambda>k. s_set (lhs k)) new) \<and>
                   found_masks new \<inter> found_masks (ckeys st) = {})"
    using work_iter_new by blast
  have 3: "\<forall>st. reached q n st \<longrightarrow> length (ckeys st) \<le> 2 ^ unat n"
    using reached_inv[OF assms] b by blast
  from 1 2 3 show ?thesis by blast
qed

theorem enumeration_terminates_witness:
  "unat (2 :: 8 word) \<le> MAX_ATTRIBS \<and>
   deps_in_range (unat (2 :: 8 word))
     [\<lparr>lhs = \<lparr>s_set = 1, s_size = 1, s_cursor = 0, s_count = 0\<rparr>,
        rhs = \<lparr>s_set = 2, s_size = 1, s_cursor = 0, s_count = 0\<rparr>\<rparr>,
      \<lparr>lhs = \<lparr>s_set = 2, s_size = 1, s_cursor = 0, s_count = 0\<rparr>,
        rhs = \<lparr>s_set = 1, s_size = 1, s_cursor = 0, s_count = 0\<rparr>\<rparr>] \<and>
   print_all_candidate_keys
     [\<lparr>lhs = \<lparr>s_set = 1, s_size = 1, s_cursor = 0, s_count = 0\<rparr>,
        rhs = \<lparr>s_set = 2, s_size = 1, s_cursor = 0, s_count = 0\<rparr>\<rparr>,
      \<lparr>lhs = \<lparr>s_set = 2, s_size = 1, s_cursor = 0, s_count = 0\<rparr>,
        rhs = \<lparr>s_set = 1, s_size = 1, s_cursor = 0, s_count = 0\<rparr>\<rparr>] 2
     = Inr \<lparr>keys_found =
       [\<lparr>lhs = \<lparr>s_set = 2, s_size = 1, s_cursor = 0, s_count = 0\<rparr>,
        rhs = \<lparr>s_set = 0, s_size = 0, s_cursor = 0, s_count = 0\<rparr>\<rparr>,
        \<lparr>lhs = \<lparr>s_set = 1, s_size = 1, s_cursor = 0, s_count = 0\<rparr>,
        rhs = \<lparr>s_set = 0, s_size = 0, s_cursor = 0, s_count = 0\<rparr>\<rparr>],
      keys_printed = [[1], [0]], number_printed = 2\<rparr> \<and>
   length (keys_found \<lparr>keys_found =
       [\<lparr>lhs = \<lparr>s_set = 2, s_size = 1, s_cursor = 0, s_count = 0\<rparr>,
        rhs = \<lparr>s_set = 0, s_size = 0, s_cursor = 0, s_count = 0\<rparr>\<rparr>,
        \<lparr>lhs = \<lparr>s_set = 1, s_size = 1, s_cursor = 0, s_count = 0\<rparr>,
        rhs = \<lparr>s_set = 0, s_size = 0, s_cursor = 0, s_count = 0\<rparr>\<rparr>],
      keys_printed = [[1], [0]], number_printed = 2\<rparr>) \<le> 2 ^ unat (2 :: 8 word)"
proof -
  let ?q = "[\<lparr>lhs = \<lparr>s_set = 1, s_size = 1, s_cursor = 0, s_count = 0\<rparr>,
        rhs = \<lparr>s_set = 2, s_size = 1, s_cursor = 0, s_count = 0\<rparr>\<rparr>,
      \<lparr>lhs = \<lparr>s_set = 2, s_size = 1, s_cursor = 0, s_count = 0\<rparr>,
        rhs = \<lparr>s_set = 1, s_size = 1, s_cursor = 0, s_count = 0\<rparr>\<rparr>]"
  let ?r = "\<lparr>keys_found =
       [\<lparr>lhs = \<lparr>s_set = 2, s_size = 1, s_cursor = 0, s_count = 0\<rparr>,
        rhs = \<lparr>s_set = 0, s_size = 0, s_cursor = 0, s_count = 0\<rparr>\<rparr>,
        \<lparr>lhs = \<lparr>s_set = 1, s_size = 1, s_cursor = 0, s_count = 0\<rparr>,
        rhs = \<lparr>s_set = 0, s_size = 0, s_cursor = 0, s_count = 0\<rparr>\<rparr>],
      keys_printed = [[1], [0]], number_printed = 2\<rparr>"
  have h1: "unat (2 :: 8 word) \<le> MAX_ATTRIBS" by code_simp
  have h2: "deps_in_range (unat (2 :: 8 word)) ?q" by code_simp
  have v: "print_all_candidate_keys ?q 2 = Inr ?r" by code_simp
  from enumeration_terminates[OF h1 h2] v
  have "length (keys_found ?r) \<le> 2 ^ unat (2 :: 8 word)" by auto
  with h1 h2 v show ?thesis by blast
qed

section \<open>Further properties of the closure and of the keys found\<close>

text \<open>The closure is monotone and idempotent.\<close>

lemma closure_monotone:
  assumes "unat n \<le> MAX_ATTRIBS" "deps_in_range (unat n) q"
    and "in_range (unat n) s2" "Set_contains s2 s1"
  shows "\<exists>c1 c2. compute_closure s1 q n = Inr c1 \<and> compute_closure s2 q n = Inr c2 \<and>
           Set_contains c2 c1"
proof -
  have r1: "in_range (unat n) s1"
    using assms(3,4) by (auto simp: in_range_iff contains_iff)
  from closure_props[OF assms(1,2) r1] obtain c1 where
    c1: "closure_loop q n (Set_copy s1) = Inr c1"
    and l1: "\<forall>D. attrs s1 \<subseteq> D \<and> closed_set q D \<longrightarrow> attrs c1 \<subseteq> D"
    by blast
  from closure_props[OF assms(1,2,3)] obtain c2 where
    c2: "closure_loop q n (Set_copy s2) = Inr c2" and e2: "attrs s2 \<subseteq> attrs c2"
    and k2: "closed_set q (attrs c2)"
    by blast
  have "attrs s1 \<subseteq> attrs c2" using assms(4) e2 by (auto simp: contains_iff)
  with l1 k2 have "attrs c1 \<subseteq> attrs c2" by blast
  with c1 c2 show ?thesis by (simp add: compute_closure_def contains_iff)
qed

lemma closure_idempotent:
  assumes "unat n \<le> MAX_ATTRIBS" "deps_in_range (unat n) q" "in_range (unat n) s"
  shows "\<exists>c. compute_closure s q n = Inr c \<and> compute_closure c q n = Inr (Set_copy c)"
proof -
  from closure_props[OF assms] obtain c where
    c: "closure_loop q n (Set_copy s) = Inr c" and k: "closed_set q (attrs c)"
    by blast
  have "closed_under q (Set_copy c)" using k by (simp add: closed_under_iff attrs_copy)
  then have "closure_iter q n (Set_copy c) False = Pass_over (Set_copy c) False"
    by (rule closed_fixpoint)
  then have "closure_loop q n (Set_copy c) = Inr (Set_copy c)"
    by (simp add: closure_loop.simps[of q n "Set_copy c"])
  with c show ?thesis by (simp add: compute_closure_def)
qed

text \<open>Every key found is a super-key none of whose proper subsets is a super-key.\<close>

lemma found_keys_minimal:
  assumes "unat n \<le> MAX_ATTRIBS" "deps_in_range (unat n) q"
  shows "\<exists>r. print_all_candidate_keys q n = Inr r \<and>
           (\<forall>k \<in> set (keys_found r). superkey q n (lhs k) \<and>
              (\<forall>t. Set_contains (lhs k) t \<and> s_set t \<noteq> s_set (lhs k) \<longrightarrow> \<not> superkey q n t))"
proof -
  from enumeration_result[OF assms] obtain st where
    r: "print_all_candidate_keys q n =
           Inr \<lparr>keys_found = ckeys st, keys_printed = printed st,
                number_printed = of_nat (length (ckeys st))\<rparr>"
    and inv: "search_inv q n st" by blast
  have c: "\<forall>k \<in> set (ckeys st). candidate q n (lhs k)" using inv by (simp add: search_inv_def)
  have "superkey q n (lhs k) \<and>
        (\<forall>t. Set_contains (lhs k) t \<and> s_set t \<noteq> s_set (lhs k) \<longrightarrow> \<not> superkey q n t)"
    if "k \<in> set (ckeys st)" for k
  proof -
    from c that have ck: "candidate q n (lhs k)" by blast
    then have rk: "in_range (unat n) (lhs k)" by (simp add: candidate_def)
    have 1: "superkey q n (lhs k)"
      using ck superkey_iff[OF assms rk] by (simp add: candidate_def)
    have 2: "\<not> superkey q n t" if "Set_contains (lhs k) t \<and> s_set t \<noteq> s_set (lhs k)" for t
    proof -
      have "attrs t \<subset> attrs (lhs k)" using that by (auto simp: contains_iff attrs_eq_iff)
      moreover have "\<forall>a \<in> attrs (lhs k). \<not> sk_set q (unat n) (attrs (lhs k) - {a})"
        using ck by (simp add: candidate_def)
      ultimately have "\<not> sk_set q (unat n) (attrs t)"
        by (rule minimal_no_proper_subset[rotated])
      moreover have "in_range (unat n) t"
        using that rk by (auto simp: contains_iff in_range_iff)
      ultimately show ?thesis using superkey_iff[OF assms] by simp
    qed
    from 1 2 show ?thesis by blast
  qed
  with r show ?thesis by auto
qed

text \<open>Without dependencies the only key found is the full universe.\<close>

lemma no_dependencies_one_key:
  assumes "unat n \<le> MAX_ATTRIBS"
  shows "\<exists>r u. print_all_candidate_keys [] n = Inr r \<and> Set_full n = Inr u \<and>
           map (\<lambda>k. s_set (lhs k)) (keys_found r) = [s_set u]"
proof -
  have d: "deps_in_range (unat n) []" by (simp add: deps_in_range_def)
  from enumeration_result[OF assms d] obtain st where
    r: "print_all_candidate_keys [] n =
           Inr \<lparr>keys_found = ckeys st, keys_printed = printed st,
                number_printed = of_nat (length (ckeys st))\<rparr>"
    and inv: "search_inv [] n st" by blast
  from Set_full_total[OF assms] obtain u where u: "Set_full n = Inr u" by blast
  have au: "attrs u = {..<unat n}" using u by (rule Set_full_attrs)
  have ne: "ckeys st \<noteq> []" and c: "\<forall>k \<in> set (ckeys st). candidate [] n (lhs k)"
    and di: "distinct (map (\<lambda>k. s_set (lhs k)) (ckeys st))"
    using inv by (simp_all add: search_inv_def)
  have m: "s_set (lhs k) = s_set u" if "k \<in> set (ckeys st)" for k
  proof -
    from c that have ck: "candidate [] n (lhs k)" by blast
    then have "sk_set [] (unat n) (attrs (lhs k))" by (simp add: candidate_def)
    then have "{..<unat n} \<subseteq> attrs (lhs k)" by (simp add: sk_set_def closed_set_def)
    moreover have "attrs (lhs k) \<subseteq> {..<unat n}" using ck by (simp add: candidate_def in_range_iff)
    ultimately have "attrs (lhs k) = attrs u" using au by simp
    then show ?thesis by (simp add: attrs_eq_iff)
  qed
  obtain k ks where ks: "ckeys st = k # ks" using ne by (cases "ckeys st") auto
  have "ks = []"
  proof (cases ks)
    case (Cons k' ks')
    with ks m[of k] m[of k'] di show ?thesis by simp
  qed simp
  with ks m[of k] r u show ?thesis by simp
qed

text \<open>The single dependency \<open>A \<rightarrow> B\<close> over two attributes: the one key \<open>{A}\<close> is found and
  printed.\<close>

lemma single_dependency_key:
  "print_all_candidate_keys
     [\<lparr>lhs = \<lparr>s_set = 1, s_size = 1, s_cursor = 0, s_count = 0\<rparr>,
        rhs = \<lparr>s_set = 2, s_size = 1, s_cursor = 0, s_count = 0\<rparr>\<rparr>] 2
   = Inr \<lparr>keys_found =
            [\<lparr>lhs = \<lparr>s_set = 1, s_size = 1, s_cursor = 0, s_count = 0\<rparr>,
               rhs = \<lparr>s_set = 0, s_size = 0, s_cursor = 0, s_count = 0\<rparr>\<rparr>],
          keys_printed = [[0]], number_printed = 1\<rparr>"
  by code_simp

end
